theory Spec2Isabelle
  imports Complex_Main "HOL-Library.Multiset" "HOL-Library.Product_Lexorder"
begin

unbundle bit_operations_syntax

section \<open>Numbered notation and MIDI: the data model\<close>

text \<open>
  The program is TypeScript. A string is the list of its UTF-16 code units
  (\<open>jsstring\<close>). Ticks, pitches, octaves, degrees and byte values are \<open>int\<close>. A number
  that may be \<open>NaN\<close> and is an integer otherwise is an \<open>int option\<close>, with \<open>None\<close> for
  \<open>NaN\<close>; a read outside an array is \<open>undefined\<close> in the source and \<open>None\<close> here, and
  \<open>undefined\<close> becomes \<open>NaN\<close> under arithmetic. The 32-bit operators \<open><<\<close>, \<open>>>\<close>, \<open>&\<close> and
  \<open>|\<close> are \<open>js_shl\<close>, \<open>js_sar\<close>, \<open>js_and\<close> and \<open>js_or\<close>. \<open>Math.round\<close> rounds half up
  (\<open>jsRound\<close>).

  The beats, the volume and the beats per minute of a score that the parser returns are
  finite, and are exact rationals here (\<open>rat\<close>); those of a score that the reconstructor
  returns may be \<open>Infinity\<close> or \<open>NaN\<close> (\<open>jsnum\<close>). The records of a score take the type of
  these numbers as a parameter. The writer is modelled on scores with finite numbers only:
  it sorts by tick, and the order that \<open>Array.prototype.sort\<close> gives with a tick that is
  \<open>NaN\<close> is left to the implementation by the language.

  What the language leaves to the engine, or what needs the tables of Unicode, is a
  parameter of the model (\<open>engine\<close>): the conversion \<open>Number\<close> of a string (a finite number,
  or \<open>None\<close> for \<open>NaN\<close>), the case mappings of a string that is not ASCII, \<open>Math.pow(1.5, n)\<close>,
  the addition of two doubles, and the text of a number that is not an integer. Nothing is
  assumed of them except where a theorem says so. The other operations on finite numbers are
  exact here, as they are in double precision on the integers and halves that occur.

  A loop that need not end is a \<open>partial_function\<close> in the option monad, where \<open>None\<close> is a
  run without end.
\<close>


type_synonym jsstring = "nat list"

definition str :: "string \<Rightarrow> jsstring" where
  "str s = map of_char s"

datatype jsnum = Fin rat | PInf | NInf | NaN

text \<open>
  The program of a header is a number, or what a lookup in the plain object
  \<open>INSTRUMENT_MAP\<close> finds under a name that \<open>Object.prototype\<close> defines (\<open>PObject\<close>, with the
  name), or \<open>undefined\<close> when the reader has read it past the end of the file.
\<close>

datatype progval = PNum int | PObject jsstring | PUndefined

record 'n ScoreHeader =
  key :: jsstring
  bpm :: 'n
  volume :: 'n
  octave :: int
  program :: progval

record NoteSpec =
  degree :: int
  octaveShift :: "int option"
  accidental :: int

datatype EventType = Note | Chord | Rest

record 'n ScoreEvent =
  type :: EventType
  durationBeats :: 'n
  eventNotes :: "NoteSpec list"

record 'n ParsedScore =
  header :: "'n ScoreHeader"
  events :: "'n ScoreEvent list"
  totalBeats :: 'n

datatype error =
    ChordMissingParen
  | ChordEmpty
  | ChordBadSymbol jsstring
  | UnknownSymbol nat
  | MidiHeaderInvalid
  | MidiTrackCountInvalid
  | MidiTrackHeaderInvalid
  | RangeError
  | TypeError

record engine =
  toNumber :: "jsstring \<Rightarrow> rat option"
  upperCase :: "jsstring \<Rightarrow> jsstring"
  lowerCase :: "jsstring \<Rightarrow> jsstring"
  pow15 :: "nat \<Rightarrow> rat"
  fadd :: "rat \<Rightarrow> rat \<Rightarrow> rat"
  showNumber :: "rat \<Rightarrow> jsstring"
  showInherited :: "jsstring \<Rightarrow> jsstring"

definition DEFAULT_HEADER :: "rat ScoreHeader" where
  "DEFAULT_HEADER = \<lparr>key = str ''C'', bpm = 120, volume = 4 / 5, octave = 4, program = PNum 0\<rparr>"

definition MAJOR_SCALE :: "int list" where
  "MAJOR_SCALE = [0, 2, 4, 5, 7, 9, 11]"

definition KEY_OFFSETS :: "jsstring \<rightharpoonup> int" where
  "KEY_OFFSETS = map_of
     [(str ''C'', 0), (str ''C#'', 1), (str ''Db'', 1), (str ''D'', 2), (str ''D#'', 3),
      (str ''Eb'', 3), (str ''E'', 4), (str ''F'', 5), (str ''F#'', 6), (str ''Gb'', 6),
      (str ''G'', 7), (str ''G#'', 8), (str ''Ab'', 8), (str ''A'', 9), (str ''A#'', 10),
      (str ''Bb'', 10), (str ''B'', 11)]"

definition INSTRUMENT_MAP :: "jsstring \<rightharpoonup> int" where
  "INSTRUMENT_MAP = map_of [(str ''piano'', 0)]"

text \<open>
  \<open>KEY_OFFSETS\<close> and \<open>INSTRUMENT_MAP\<close> are plain objects: a lookup \<open>table[name]\<close> finds the
  table's own entry, or else the property that \<open>Object.prototype\<close> defines under that name
  (a function, or \<open>Object.prototype\<close> itself for \<open>__proto__\<close>), or else \<open>undefined\<close>.
\<close>

definition objectPrototypeKeys :: "jsstring list" where
  "objectPrototypeKeys =
     [str ''constructor'', str ''__defineGetter__'', str ''__defineSetter__'',
      str ''hasOwnProperty'', str ''__lookupGetter__'', str ''__lookupSetter__'',
      str ''isPrototypeOf'', str ''propertyIsEnumerable'', str ''toString'', str ''valueOf'',
      str ''__proto__'', str ''toLocaleString'']"

datatype 'a lookup = Own 'a | Inherited | Absent

definition lookupObject :: "(jsstring \<rightharpoonup> 'a) \<Rightarrow> jsstring \<Rightarrow> 'a lookup" where
  "lookupObject table name =
     (case table name of
        Some v \<Rightarrow> Own v
      | None \<Rightarrow> if name \<in> set objectPrototypeKeys then Inherited else Absent)"

definition clamp :: "'a::linorder \<Rightarrow> 'a \<Rightarrow> 'a \<Rightarrow> 'a" where
  "clamp v lo hi = max lo (min hi v)"

definition jsRound :: "rat \<Rightarrow> int" where
  "jsRound x = \<lfloor>x + 1 / 2\<rfloor>"

section \<open>Notation parser\<close>

definition isSpace :: "nat \<Rightarrow> bool" where
  "isSpace c \<longleftrightarrow>
     c \<in> {9, 10, 11, 12, 13, 32, 160, 5760, 8232, 8233, 8239, 8287, 12288, 65279} \<or>
     (8192 \<le> c \<and> c \<le> 8202)"

definition isAlpha :: "nat \<Rightarrow> bool" where
  "isAlpha c \<longleftrightarrow> (65 \<le> c \<and> c \<le> 90) \<or> (97 \<le> c \<and> c \<le> 122)"

definition isDegreeDigit :: "nat \<Rightarrow> bool" where
  "isDegreeDigit c \<longleftrightarrow> of_char CHR ''1'' \<le> c \<and> c \<le> of_char CHR ''7''"

text \<open>
  On a string of ASCII code units the case mappings change the letters only; on any other
  string they are the engine's.
\<close>

definition isAscii :: "jsstring \<Rightarrow> bool" where
  "isAscii s \<longleftrightarrow> list_all (\<lambda>c. c < 128) s"

definition toLowerCase :: "engine \<Rightarrow> jsstring \<Rightarrow> jsstring" where
  "toLowerCase E s =
     (if isAscii s then map (\<lambda>c. if 65 \<le> c \<and> c \<le> 90 then c + 32 else c) s else lowerCase E s)"

definition toUpperCase :: "engine \<Rightarrow> jsstring \<Rightarrow> jsstring" where
  "toUpperCase E s =
     (if isAscii s then map (\<lambda>c. if 97 \<le> c \<and> c \<le> 122 then c - 32 else c) s else upperCase E s)"

definition trim :: "jsstring \<Rightarrow> jsstring" where
  "trim s = rev (dropWhile isSpace (rev (dropWhile isSpace s)))"

definition capitalize :: "engine \<Rightarrow> jsstring \<Rightarrow> jsstring" where
  "capitalize E v = toUpperCase E (take 1 v) @ drop 1 v"

definition matchHeader :: "jsstring \<Rightarrow> (jsstring \<times> jsstring) option" where
  "matchHeader input =
     (case dropWhile isSpace input of
        [] \<Rightarrow> None
      | c # r \<Rightarrow>
          if c \<noteq> of_char CHR ''['' then None
          else let body = takeWhile (\<lambda>x. x \<noteq> of_char CHR '']'') r;
                   after = dropWhile (\<lambda>x. x \<noteq> of_char CHR '']'') r
               in if body = [] \<or> after = [] then None else Some (body, tl after))"

definition matchPairAt :: "jsstring \<Rightarrow> (jsstring \<times> jsstring \<times> jsstring) option" where
  "matchPairAt s =
     (let keyRaw = takeWhile isAlpha s;
          r1 = dropWhile isSpace (dropWhile isAlpha s)
      in if keyRaw = [] then None
         else case r1 of
                [] \<Rightarrow> None
              | c # r2 \<Rightarrow>
                  if c \<noteq> of_char CHR ''='' then None
                  else let r3 = dropWhile isSpace r2;
                           valueRaw = takeWhile (\<lambda>x. \<not> isSpace x) r3
                       in if valueRaw = [] then None
                          else Some (keyRaw, valueRaw, dropWhile (\<lambda>x. \<not> isSpace x) r3))"

lemma matchPairAt_shorter: "matchPairAt s = Some (k, v, r) \<Longrightarrow> length r < length s"
proof -
  assume a: "matchPairAt s = Some (k, v, r)"
  have d: "length (dropWhile P xs) \<le> length xs" for P and xs :: jsstring
    by (rule length_dropWhile_le)
  from a obtain c r2 where 1: "dropWhile isSpace (dropWhile isAlpha s) = c # r2"
    and 2: "r = dropWhile (\<lambda>x. \<not> isSpace x) (dropWhile isSpace r2)"
    by (auto simp: matchPairAt_def Let_def split: list.splits if_splits)
  have "length r \<le> length r2" unfolding 2
    by (meson d order_trans)
  also have "length r2 < length (dropWhile isSpace (dropWhile isAlpha s))" by (simp add: 1)
  also have "\<dots> \<le> length s" by (meson d order_trans)
  finally show ?thesis .
qed

function scanPairs :: "jsstring \<Rightarrow> (jsstring \<times> jsstring) list" where
  "scanPairs [] = []"
| "scanPairs (c # cs) =
     (case matchPairAt (c # cs) of
        Some (k, v, r) \<Rightarrow> (k, v) # scanPairs r
      | None \<Rightarrow> scanPairs cs)"
  by pat_completeness auto
termination
  by (relation "measure length") (auto dest: matchPairAt_shorter)

function splitWords :: "jsstring \<Rightarrow> jsstring list" where
  "splitWords s =
     (case dropWhile isSpace s of
        [] \<Rightarrow> []
      | c # cs \<Rightarrow> (c # takeWhile (\<lambda>x. \<not> isSpace x) cs) # splitWords (dropWhile (\<lambda>x. \<not> isSpace x) cs))"
  by pat_completeness auto
termination
proof (relation "measure length")
  fix s :: jsstring and c cs
  assume a: "dropWhile isSpace s = c # cs"
  have "length (dropWhile (\<lambda>x. \<not> isSpace x) cs) \<le> length cs" by (rule length_dropWhile_le)
  also have "length cs < length (dropWhile isSpace s)" by (simp add: a)
  also have "\<dots> \<le> length s" by (rule length_dropWhile_le)
  finally show "(dropWhile (\<lambda>x. \<not> isSpace x) cs, s) \<in> measure length" by simp
qed simp

declare splitWords.simps [simp del]

definition applyPair :: "engine \<Rightarrow> rat ScoreHeader \<Rightarrow> jsstring \<times> jsstring \<Rightarrow> rat ScoreHeader" where
  "applyPair E h kv =
     (case kv of (keyRaw, valueRaw) \<Rightarrow>
        let k = toLowerCase E keyRaw; v = trim valueRaw
        in if k = str ''key'' then h\<lparr>key := capitalize E v\<rparr>
           else if k = str ''instr'' \<or> k = str ''program'' then
             (case toNumber E v of
                Some programNumber \<Rightarrow> h\<lparr>program := PNum (clamp (jsRound programNumber) 0 127)\<rparr>
              | None \<Rightarrow>
                  (case lookupObject INSTRUMENT_MAP (toLowerCase E v) of
                     Own mapped \<Rightarrow> h\<lparr>program := PNum mapped\<rparr>
                   | Inherited \<Rightarrow> h\<lparr>program := PObject (toLowerCase E v)\<rparr>
                   | Absent \<Rightarrow> h))
           else if k = str ''bpm'' then
             (case toNumber E v of
                Some b \<Rightarrow> if b > 0 then h\<lparr>bpm := b\<rparr> else h
              | None \<Rightarrow> h)
           else if k = str ''vol'' then
             (case toNumber E v of
                Some vol \<Rightarrow>
                  if vol > 0
                  then h\<lparr>volume := (if vol > 1 then clamp (vol / 127) 0 1 else clamp vol 0 1)\<rparr>
                  else h
              | None \<Rightarrow> h)
           else if k = str ''oct'' then
             (case toNumber E v of
                Some oct \<Rightarrow> h\<lparr>octave := jsRound oct\<rparr>
              | None \<Rightarrow> h)
           else h)"

definition applyPositional :: "engine \<Rightarrow> jsstring list \<Rightarrow> rat ScoreHeader \<Rightarrow> rat ScoreHeader" where
  "applyPositional E tokens h =
     (let h1 = (if length tokens \<ge> 1 then h\<lparr>key := capitalize E (tokens ! 0)\<rparr> else h);
          h2 = (if length tokens \<ge> 2
                then (case toNumber E (tokens ! 1) of
                        Some programNumber \<Rightarrow> h1\<lparr>program := PNum (clamp (jsRound programNumber) 0 127)\<rparr>
                      | None \<Rightarrow> h1)
                else h1);
          h3 = (if length tokens \<ge> 3
                then (case toNumber E (tokens ! 2) of
                        Some b \<Rightarrow> if b > 0 then h2\<lparr>bpm := b\<rparr> else h2
                      | None \<Rightarrow> h2)
                else h2)
      in h3)"

definition parseHeader :: "engine \<Rightarrow> jsstring \<Rightarrow> rat ScoreHeader \<times> jsstring" where
  "parseHeader E input =
     (case matchHeader input of
        None \<Rightarrow> (DEFAULT_HEADER, input)
      | Some (body, rest) \<Rightarrow>
          let headerText = trim body;
              pairs = scanPairs headerText
          in if pairs = []
             then (applyPositional E (splitWords headerText) DEFAULT_HEADER, rest)
             else (foldl (applyPair E) DEFAULT_HEADER pairs, rest))"

fun chordMods :: "jsstring \<Rightarrow> int \<Rightarrow> int \<Rightarrow> int \<times> int \<times> jsstring" where
  "chordMods [] os acc = (os, acc, [])"
| "chordMods (m # ms) os acc =
     (if m = of_char CHR ''+'' then chordMods ms (os + 1) acc
      else if m = of_char CHR ''-'' then chordMods ms (os - 1) acc
      else if m = of_char CHR ''#'' then chordMods ms os (acc + 1)
      else if m = of_char CHR ''b'' then chordMods ms os (acc - 1)
      else if m = of_char CHR ''_'' then chordMods ms os (acc + 1)
      else if isSpace m then chordMods ms os acc
      else (os, acc, m # ms))"

lemma chordMods_length: "chordMods s os acc = (os', acc', r) \<Longrightarrow> length r \<le> length s"
  by (induction s os acc rule: chordMods.induct) (auto split: if_splits simp: le_SucI)

function parseNoteSpecsLoop :: "jsstring \<Rightarrow> jsstring \<Rightarrow> NoteSpec list \<Rightarrow> error + NoteSpec list" where
  "parseNoteSpecsLoop segment [] ns = Inr ns"
| "parseNoteSpecsLoop segment (ch # cs) ns =
     (if isSpace ch then parseNoteSpecsLoop segment cs ns
      else if \<not> isDegreeDigit ch then Inl (ChordBadSymbol segment)
      else case chordMods cs 0 0 of
             (os, acc, r) \<Rightarrow>
               parseNoteSpecsLoop segment r
                 (ns @ [\<lparr>degree = int ch - 48, octaveShift = Some os, accidental = acc\<rparr>]))"
  by pat_completeness auto
termination
  by (relation "measure (\<lambda>(segment, s, ns). length s)")
    (auto dest: chordMods_length[OF sym] simp: less_Suc_eq_le)

definition parseNoteSpecs :: "jsstring \<Rightarrow> error + NoteSpec list" where
  "parseNoteSpecs segment = parseNoteSpecsLoop segment segment []"

fun noteMods :: "jsstring \<Rightarrow> int \<Rightarrow> int \<Rightarrow> int \<times> int \<times> jsstring" where
  "noteMods [] os acc = (os, acc, [])"
| "noteMods (m # ms) os acc =
     (if m = of_char CHR ''+'' then noteMods ms (os + 1) acc
      else if m = of_char CHR ''-'' then noteMods ms (os - 1) acc
      else if m = of_char CHR ''#'' then noteMods ms os (acc + 1)
      else if m = of_char CHR ''b'' then noteMods ms os (acc - 1)
      else if m = of_char CHR ''_'' then noteMods ms os (acc + 1)
      else (os, acc, m # ms))"

lemma noteMods_length: "noteMods s os acc = (os', acc', r) \<Longrightarrow> length r \<le> length s"
  by (induction s os acc rule: noteMods.induct) (auto split: if_splits simp: le_SucI)

fun durationLoop :: "jsstring \<Rightarrow> nat \<Rightarrow> nat \<Rightarrow> nat \<times> nat \<times> jsstring" where
  "durationLoop [] dotCount sustainCount = (dotCount, sustainCount, [])"
| "durationLoop (ch # cs) dotCount sustainCount =
     (if ch = of_char CHR ''.'' then durationLoop cs (dotCount + 1) sustainCount
      else if ch = of_char CHR ''~'' then durationLoop cs dotCount (sustainCount + 1)
      else (dotCount, sustainCount, ch # cs))"

definition parseDuration :: "engine \<Rightarrow> jsstring \<Rightarrow> rat \<times> jsstring" where
  "parseDuration E text =
     (case durationLoop text 0 0 of
        (dotCount, sustainCount, r) \<Rightarrow> (fadd E (1 * pow15 E dotCount) (of_nat sustainCount), r))"

lemma durationLoop_length: "durationLoop s d u = (d', u', r) \<Longrightarrow> length r \<le> length s"
  by (induction s d u rule: durationLoop.induct) (auto split: if_splits simp: le_SucI)

lemma parseDuration_length: "parseDuration E s = (d, r) \<Longrightarrow> length r \<le> length s"
  by (auto simp: parseDuration_def split: prod.splits dest: durationLoop_length)

function parseEvents :: "engine \<Rightarrow> jsstring \<Rightarrow> rat ScoreEvent list \<Rightarrow> rat
    \<Rightarrow> error + (rat ScoreEvent list \<times> rat)" where
  "parseEvents E [] evs tb = Inr (evs, tb)"
| "parseEvents E (ch # cs) evs tb =
     (if isSpace ch then parseEvents E cs evs tb
      else if ch = of_char CHR ''('' then
        (if of_char CHR '')'' \<notin> set cs then Inl ChordMissingParen
         else case parseNoteSpecs (takeWhile (\<lambda>x. x \<noteq> of_char CHR '')'') cs) of
                Inl e \<Rightarrow> Inl e
              | Inr ns \<Rightarrow>
                  if ns = [] then Inl ChordEmpty
                  else case parseDuration E (tl (dropWhile (\<lambda>x. x \<noteq> of_char CHR '')'') cs)) of
                         (duration, r) \<Rightarrow>
                           parseEvents E r
                             (evs @ [\<lparr>type = Chord, durationBeats = duration, eventNotes = ns\<rparr>])
                             (fadd E tb duration))
      else if ch = of_char CHR ''0'' then
        (case parseDuration E cs of
           (duration, r) \<Rightarrow>
             parseEvents E r (evs @ [\<lparr>type = Rest, durationBeats = duration, eventNotes = []\<rparr>])
               (fadd E tb duration))
      else if isDegreeDigit ch then
        (case noteMods cs 0 0 of
           (os, acc, r1) \<Rightarrow>
             (case parseDuration E r1 of
                (duration, r) \<Rightarrow>
                  parseEvents E r
                    (evs @ [\<lparr>type = Note, durationBeats = duration,
                             eventNotes = [\<lparr>degree = int ch - 48, octaveShift = Some os, accidental = acc\<rparr>]\<rparr>])
                    (fadd E tb duration)))
      else Inl (UnknownSymbol ch))"
  by pat_completeness auto
termination
proof (relation "measure (\<lambda>(E, s, evs, tb). length s)", goal_cases)
  case 1
  show ?case by simp
next
  case (2 E ch cs evs tb)
  then show ?case by simp
next
  case (3 E ch cs evs tb ns x y)
  have "length y \<le> length (tl (dropWhile (\<lambda>x. x \<noteq> of_char CHR '')'') cs))"
    using 3 by (auto dest: parseDuration_length[OF sym])
  also have "\<dots> \<le> length (dropWhile (\<lambda>x. x \<noteq> of_char CHR '')'') cs)"
    by simp
  also have "\<dots> \<le> length cs"
    by (rule length_dropWhile_le)
  finally show ?case by simp
next
  case (4 E ch cs evs tb x y)
  then show ?case by (auto dest: parseDuration_length[OF sym] simp: less_Suc_eq_le)
next
  case (5 E ch cs evs tb x y z yy xa ya)
  then show ?case
    by (auto dest!: parseDuration_length[OF sym] noteMods_length[OF sym] simp: less_Suc_eq_le)
qed

definition parseScore :: "engine \<Rightarrow> jsstring \<Rightarrow> error + rat ParsedScore" where
  "parseScore E input =
     (case parseHeader E input of
        (h, rest) \<Rightarrow>
          (case parseEvents E rest [] 0 of
             Inl e \<Rightarrow> Inl e
           | Inr (evs, tb) \<Rightarrow> Inr \<lparr>header = h, events = evs, totalBeats = tb\<rparr>))"


section \<open>Pitch mapper\<close>

text \<open>
  \<open>KEY_OFFSETS[header.key] ?? 0\<close>: the offset of a key of the table, 0 for a key that the
  lookup does not find, and for a key that \<open>Object.prototype\<close> defines the object found there,
  which \<open>??\<close> lets through. Added to a number such an object gives a string, and the
  arithmetic on that string gives \<open>NaN\<close>: \<open>keyOffset\<close> is \<open>None\<close> then, and so are the tonic
  and the pitch.
\<close>

definition keyOffset :: "'n ScoreHeader \<Rightarrow> int option" where
  "keyOffset h =
     (case lookupObject KEY_OFFSETS (key h) of
        Own v \<Rightarrow> Some v
      | Inherited \<Rightarrow> None
      | Absent \<Rightarrow> Some 0)"

definition tonic :: "'n ScoreHeader \<Rightarrow> int option" where
  "tonic h = map_option (\<lambda>k. 12 * (octave h + 1) + k) (keyOffset h)"

definition scaleOffset :: "int \<Rightarrow> int" where
  "scaleOffset d = (if 1 \<le> d \<and> d \<le> 7 then MAJOR_SCALE ! nat (d - 1) else 0)"

text \<open>\<open>midiRaw\<close> is the local \<open>midi\<close> of \<open>degreeToMidi\<close>, the pitch before rounding and clamping.\<close>

definition midiRaw :: "int \<Rightarrow> int option \<Rightarrow> int \<Rightarrow> 'n ScoreHeader \<Rightarrow> int option" where
  "midiRaw d os acc h =
     (case (tonic h, os) of
        (Some t, Some shift) \<Rightarrow> Some (t + scaleOffset d + acc + shift * 12)
      | _ \<Rightarrow> None)"

definition degreeToMidi :: "int \<Rightarrow> int option \<Rightarrow> int \<Rightarrow> 'n ScoreHeader \<Rightarrow> int option" where
  "degreeToMidi d os acc h = map_option (\<lambda>midi. clamp midi 0 127) (midiRaw d os acc h)"

section \<open>32-bit operators\<close>

definition toInt32 :: "int \<Rightarrow> int" where
  "toInt32 x = signed_take_bit 31 x"

definition js_shl :: "int \<Rightarrow> nat \<Rightarrow> int" where
  "js_shl a n = signed_take_bit 31 (push_bit n a)"

definition js_sar :: "int \<Rightarrow> nat \<Rightarrow> int" where
  "js_sar a n = drop_bit n (toInt32 a)"

definition js_and :: "int \<Rightarrow> int \<Rightarrow> int" where
  "js_and a b = toInt32 a AND toInt32 b"

definition js_or :: "int \<Rightarrow> int \<Rightarrow> int" where
  "js_or a b = toInt32 a OR toInt32 b"

section \<open>MIDI writer\<close>

text \<open>The bytes of a message are numbers; the pitch of a note may be \<open>NaN\<close>.\<close>

record MidiEvent =
  tick :: int
  order :: int
  bytes :: "int option list"

partial_function (option) writeVarLen_pack :: "int \<Rightarrow> int \<Rightarrow> int option" where
  "writeVarLen_pack v buffer =
     (let v' = js_sar v 7
      in if v' \<noteq> 0
         then writeVarLen_pack v' (js_or (js_shl buffer 8) (js_or (js_and v' 0x7f) 0x80))
         else Some buffer)"

declare writeVarLen_pack.simps [code]

partial_function (option) writeVarLen_emit :: "int \<Rightarrow> int list \<Rightarrow> int list option" where
  "writeVarLen_emit buffer out =
     (let out' = out @ [js_and buffer 0xff]
      in if js_and buffer 0x80 \<noteq> 0
         then writeVarLen_emit (js_sar buffer 8) out'
         else Some out')"

declare writeVarLen_emit.simps [code]

definition writeVarLen :: "int \<Rightarrow> int list option" where
  "writeVarLen v =
     (case writeVarLen_pack v (js_and v 0x7f) of
        None \<Rightarrow> None
      | Some buffer \<Rightarrow> writeVarLen_emit buffer [])"

text \<open>
  \<open>Math.round(60000000 / bpm)\<close> is \<open>Infinity\<close> for a \<open>bpm\<close> of 0; the three bytes taken
  from it with \<open>>>\<close> and \<open>&\<close> are 0 then, as they are for a tempo of 0.
\<close>

definition tempoOf :: "rat ScoreHeader \<Rightarrow> int" where
  "tempoOf h = (if bpm h = 0 then 0 else jsRound (60000000 / bpm h))"

text \<open>\<open>header.program & 0x7f\<close>: a program that is not a number converts to 0.\<close>

definition programByte :: "progval \<Rightarrow> int" where
  "programByte p = (case p of PNum n \<Rightarrow> js_and n 0x7f | _ \<Rightarrow> 0)"

definition headerMessages :: "rat ScoreHeader \<Rightarrow> int \<Rightarrow> MidiEvent list" where
  "headerMessages h velocity =
     (let tempo = tempoOf h
      in [\<lparr>tick = 0, order = 0,
           bytes = [Some 0xff, Some 0x51, Some 0x03, Some (js_and (js_sar tempo 16) 0xff),
                    Some (js_and (js_sar tempo 8) 0xff), Some (js_and tempo 0xff)]\<rparr>,
          \<lparr>tick = 0, order = 1, bytes = [Some 0xc0, Some (programByte (program h))]\<rparr>,
          \<lparr>tick = 0, order = 2, bytes = [Some 0xb0, Some 0x07, Some velocity]\<rparr>])"

definition noteMessages :: "int \<Rightarrow> int \<Rightarrow> int \<Rightarrow> int option \<Rightarrow> MidiEvent list" where
  "noteMessages t durationTicks velocity n =
     [\<lparr>tick = t, order = 3, bytes = [Some 0x90, n, Some velocity]\<rparr>,
      \<lparr>tick = t + durationTicks, order = 0, bytes = [Some 0x80, n, Some 0]\<rparr>]"

fun eventMessages :: "rat ScoreHeader \<Rightarrow> int \<Rightarrow> int \<Rightarrow> rat ScoreEvent list \<Rightarrow> int \<Rightarrow> MidiEvent list" where
  "eventMessages h velocity ticksPerBeat [] t = []"
| "eventMessages h velocity ticksPerBeat (e # es) t =
     (let durationTicks = jsRound (durationBeats e * of_int ticksPerBeat)
      in if type e = Rest then eventMessages h velocity ticksPerBeat es (t + durationTicks)
         else let midiNotes = map (\<lambda>n. degreeToMidi (degree n) (octaveShift n) (accidental n) h)
                                  (eventNotes e)
              in concat (map (noteMessages t durationTicks velocity) midiNotes)
                 @ eventMessages h velocity ticksPerBeat es (t + durationTicks))"

text \<open>\<open>Array.prototype.sort\<close> with a comparison function: a stable sort.\<close>

fun insertBy :: "('a \<Rightarrow> 'a \<Rightarrow> int) \<Rightarrow> 'a \<Rightarrow> 'a list \<Rightarrow> 'a list" where
  "insertBy cmp x [] = [x]"
| "insertBy cmp x (y # ys) = (if cmp x y \<le> 0 then x # y # ys else y # insertBy cmp x ys)"

definition sortBy :: "('a \<Rightarrow> 'a \<Rightarrow> int) \<Rightarrow> 'a list \<Rightarrow> 'a list" where
  "sortBy cmp xs = foldr (insertBy cmp) xs []"

definition compareMidi :: "MidiEvent \<Rightarrow> MidiEvent \<Rightarrow> int" where
  "compareMidi a b = (if tick a \<noteq> tick b then tick a - tick b else order a - order b)"

fun deltaEncode :: "MidiEvent list \<Rightarrow> int \<Rightarrow> int option list option" where
  "deltaEncode [] lastTick = Some []"
| "deltaEncode (e # es) lastTick =
     (case writeVarLen (tick e - lastTick) of
        None \<Rightarrow> None
      | Some delta \<Rightarrow>
          (case deltaEncode es (tick e) of
             None \<Rightarrow> None
           | Some r \<Rightarrow> Some (map Some delta @ bytes e @ r)))"

definition midiMessages :: "rat ScoreHeader \<Rightarrow> rat ScoreEvent list \<Rightarrow> int \<Rightarrow> MidiEvent list" where
  "midiMessages h evs ticksPerBeat =
     (let velocity = clamp (jsRound (volume h * 127)) 1 127
      in headerMessages h velocity @ eventMessages h velocity ticksPerBeat evs 0)"

definition u16be :: "int \<Rightarrow> int list" where
  "u16be n = [n div 256 mod 256, n mod 256]"

definition u32be :: "int \<Rightarrow> int list" where
  "u32be n = [n div 16777216 mod 256, n div 65536 mod 256, n div 256 mod 256, n mod 256]"

definition MThd :: "int list" where
  "MThd = map of_char ''MThd''"

definition MTrk :: "int list" where
  "MTrk = map of_char ''MTrk''"

text \<open>\<open>Buffer.from\<close> of an array of numbers: each number modulo 256, and 0 for \<open>NaN\<close>.\<close>

definition toUint8 :: "int option \<Rightarrow> int" where
  "toUint8 b = (case b of None \<Rightarrow> 0 | Some x \<Rightarrow> x mod 256)"

text \<open>
  \<open>writeUInt16BE\<close> throws a \<open>RangeError\<close> for a value outside 0..65535; the loops that
  need not end come before it.
\<close>

definition createMidiFile :: "rat ScoreHeader \<Rightarrow> rat ScoreEvent list \<Rightarrow> int \<Rightarrow> (error + int list) option" where
  "createMidiFile h evs ticksPerBeat =
     (case deltaEncode (sortBy compareMidi (midiMessages h evs ticksPerBeat)) 0 of
        None \<Rightarrow> None
      | Some encoded \<Rightarrow>
          if ticksPerBeat < 0 \<or> 65535 < ticksPerBeat then Some (Inl RangeError)
          else let trackData = map toUint8 (encoded @ [Some 0x00, Some 0xff, Some 0x2f, Some 0x00]);
                   headerChunk = MThd @ u32be 6 @ u16be 0 @ u16be 1 @ u16be ticksPerBeat;
                   trackChunkHeader = MTrk @ u32be (int (length trackData))
               in Some (Inr (headerChunk @ trackChunkHeader @ trackData)))"

definition scoreToMidiBuffer :: "rat ParsedScore \<Rightarrow> (error + int list) option" where
  "scoreToMidiBuffer score = createMidiFile (header score) (events score) 480"



section \<open>Pitch spelling\<close>

definition js_rem :: "int \<Rightarrow> int \<Rightarrow> int" where
  "js_rem a b = sgn a * (\<bar>a\<bar> mod \<bar>b\<bar>)"

type_synonym best = "int \<times> int \<times> int option"

definition foldAccidental :: "int \<Rightarrow> int" where
  "foldAccidental a0 =
     (let a1 = (if a0 > 6 then a0 - 12 else a0);
          a2 = (if a1 < - 6 then a1 + 12 else a1)
      in a2)"

definition spellStep :: "int \<Rightarrow> int \<Rightarrow> best \<Rightarrow> best" where
  "spellStep pitchClass d b =
     (case b of (bestDegree, bestAccidental, bestDistance) \<Rightarrow>
        let acc = foldAccidental (pitchClass - scaleOffset d);
            distance = \<bar>acc\<bar>
        in if (case bestDistance of None \<Rightarrow> True | Some bd \<Rightarrow> distance < bd)
           then (d, acc, Some distance)
           else (bestDegree, bestAccidental, bestDistance))"

definition spellLoop :: "int \<Rightarrow> best" where
  "spellLoop pitchClass = foldl (\<lambda>b d. spellStep pitchClass d b) (1, 0, None) [1, 2, 3, 4, 5, 6, 7]"

text \<open>
  With a pitch or a tonic that is \<open>NaN\<close> the difference is \<open>NaN\<close>, and so are the octave
  shift, the pitch class and every distance; no comparison with \<open>NaN\<close> holds, and the loop
  leaves the degree 1 and the accidental 0 it starts with.
\<close>

definition midiNoteToSpec :: "int option \<Rightarrow> 'n ScoreHeader \<Rightarrow> NoteSpec" where
  "midiNoteToSpec n h =
     (case (n, tonic h) of
        (Some note, Some t) \<Rightarrow>
          let diff = note - t;
              oshift = diff div 12;
              pitchClass = js_rem (js_rem diff 12 + 12) 12
          in (case spellLoop pitchClass of (bestDegree, bestAccidental, _) \<Rightarrow>
                \<lparr>degree = bestDegree, octaveShift = Some oshift, accidental = bestAccidental\<rparr>)
      | _ \<Rightarrow> \<lparr>degree = 1, octaveShift = None, accidental = 0\<rparr>)"

section \<open>MIDI reader\<close>

record MidiNoteEvent =
  startTick :: int
  endTick :: int
  noteNumber :: "int option"
  velocity :: "int option"

record ParsedMidiTrack =
  program_t :: "int option"
  volume_t :: "rat option"
  noteEvents_t :: "MidiNoteEvent list"

record ParsedMidiData =
  ticksPerBeat :: int
  tempo :: int
  tracks :: "ParsedMidiTrack list"

definition byteAt :: "int list \<Rightarrow> int \<Rightarrow> int option" where
  "byteAt data i = (if 0 \<le> i \<and> i < int (length data) then Some (data ! nat i) else None)"

definition num :: "int option \<Rightarrow> int" where
  "num b = (case b of Some x \<Rightarrow> x | None \<Rightarrow> 0)"

text \<open>\<open>(data[off] << 8) | data[off + 1]\<close>\<close>

definition u16At :: "int list \<Rightarrow> int \<Rightarrow> int" where
  "u16At data off = js_or (js_shl (num (byteAt data off)) 8) (num (byteAt data (off + 1)))"

definition readUInt32BE :: "int list \<Rightarrow> int \<Rightarrow> int" where
  "readUInt32BE data off =
     take_bit 32
       (js_or (js_or (js_or (js_shl (num (byteAt data off)) 24)
                            (js_shl (num (byteAt data (off + 1))) 16))
                     (js_shl (num (byteAt data (off + 2))) 8))
              (num (byteAt data (off + 3))))"

function readVarLenLoop :: "int list \<Rightarrow> int \<Rightarrow> int \<Rightarrow> int \<times> int" where
  "readVarLenLoop data v i =
     (if i < int (length data)
      then let byte = byteAt data i;
               v' = js_or (js_shl v 7) (js_and (num byte) 0x7f);
               i' = i + 1
           in if js_and (num byte) 0x80 = 0 then (v', i') else readVarLenLoop data v' i'
      else (v, i))"
  by pat_completeness auto
termination
  by (relation "measure (\<lambda>(data, v, i). nat (int (length data) - i))") auto

declare readVarLenLoop.simps [simp del]

definition readVarLen :: "int list \<Rightarrow> int \<Rightarrow> int \<times> int" where
  "readVarLen data off = readVarLenLoop data 0 off"

text \<open>\<open>TypedArray.prototype.subarray(begin, end)\<close>: a negative index counts from the end,
  and both are clamped to the array.\<close>

definition relIndex :: "int list \<Rightarrow> int \<Rightarrow> nat" where
  "relIndex data i = (if i < 0 then nat (max (int (length data) + i) 0) else min (nat i) (length data))"

definition subarray :: "int list \<Rightarrow> int \<Rightarrow> int \<Rightarrow> int list" where
  "subarray data b e = take (relIndex data e - relIndex data b) (drop (relIndex data b) data)"

record TrackState =
  offset :: int
  currentTick :: int
  runningStatus :: "int option"
  trackProgram :: "int option"
  trackVolume :: "rat option"
  trackTempo :: int
  activeNotes :: "(int \<times> int option) \<rightharpoonup> (int \<times> int option)"
  noteEvents :: "MidiNoteEvent list"

definition closeNote :: "TrackState \<Rightarrow> int \<times> int option \<Rightarrow> TrackState" where
  "closeNote s k =
     (case activeNotes s k of
        Some (start, vel) \<Rightarrow>
          s\<lparr>noteEvents := noteEvents s @
               [\<lparr>startTick = start, endTick = currentTick s, noteNumber = snd k, velocity = vel\<rparr>],
            activeNotes := (activeNotes s)(k := None)\<rparr>
      | None \<Rightarrow> s)"

text \<open>
  The body of the loop of \<open>parseMidiTrack\<close>, in two parts: \<open>readStatus\<close> reads the delta
  time and the status byte (or takes the running status), \<open>handleEvent\<close> is the dispatch on
  the status.
\<close>

definition readStatus :: "int list \<Rightarrow> TrackState \<Rightarrow> TrackState \<times> int option" where
  "readStatus data s0 =
     (case readVarLen data (offset s0) of (deltaValue, deltaNext) \<Rightarrow>
      let s1 = s0\<lparr>offset := deltaNext, currentTick := currentTick s0 + deltaValue\<rparr>;
          status0 = byteAt data (offset s1)
      in if (case status0 of Some b \<Rightarrow> b < 0x80 | None \<Rightarrow> False)
         then (s1, runningStatus s1)
         else (s1\<lparr>offset := offset s1 + 1, runningStatus := status0\<rparr>, status0))"

definition handleEvent :: "int list \<Rightarrow> TrackState \<Rightarrow> int option \<Rightarrow> TrackState" where
  "handleEvent data s status =
     (if status = Some 0xff then
        (let metaType = byteAt data (offset s);
             lengthInfo = readVarLen data (offset s + 1);
             metaData = subarray data (snd lengthInfo) (snd lengthInfo + fst lengthInfo);
             s' = s\<lparr>offset := snd lengthInfo + fst lengthInfo\<rparr>
         in if metaType = Some 0x51 \<and> length metaData = 3
            then s'\<lparr>trackTempo := js_or (js_or (js_shl (metaData ! 0) 16) (js_shl (metaData ! 1) 8))
                                         (metaData ! 2)\<rparr>
            else s')
      else if status = Some 0xf0 \<or> status = Some 0xf7 then
        (let lengthInfo = readVarLen data (offset s)
         in s\<lparr>offset := snd lengthInfo + fst lengthInfo\<rparr>)
      else
        (let eventType = js_and (num status) 0xf0;
             channel = js_and (num status) 0x0f;
             data1 = byteAt data (offset s);
             data2 = byteAt data (offset s + 1)
         in if eventType = 0xc0 then s\<lparr>trackProgram := data1, offset := offset s + 1\<rparr>
            else if eventType = 0xb0 then
              (if data1 = Some 0x07
               then s\<lparr>trackVolume := map_option (\<lambda>d. clamp (of_int d / 127) 0 1) data2,
                      offset := offset s + 2\<rparr>
               else s\<lparr>offset := offset s + 2\<rparr>)
            else if eventType = 0x90 then
              (let s' = s\<lparr>offset := offset s + 2\<rparr>
               in if data2 = Some 0 then closeNote s' (channel, data1)
                  else s'\<lparr>activeNotes := (activeNotes s')((channel, data1) \<mapsto> (currentTick s', data2))\<rparr>)
            else if eventType = 0x80 then closeNote (s\<lparr>offset := offset s + 2\<rparr>) (channel, data1)
            else s\<lparr>offset := offset s + (if eventType = 0xc0 \<or> eventType = 0xd0 then 1 else 2)\<rparr>))"

definition trackStep :: "int list \<Rightarrow> TrackState \<Rightarrow> TrackState" where
  "trackStep data s0 = (case readStatus data s0 of (s, status) \<Rightarrow> handleEvent data s status)"

partial_function (option) parseMidiTrackLoop :: "int list \<Rightarrow> int \<Rightarrow> TrackState \<Rightarrow> TrackState option" where
  "parseMidiTrackLoop data trackEnd s =
     (if offset s < trackEnd then parseMidiTrackLoop data trackEnd (trackStep data s) else Some s)"

declare parseMidiTrackLoop.simps [code]

definition trackStart :: "int \<Rightarrow> int \<Rightarrow> TrackState" where
  "trackStart off tempoHint =
     \<lparr>offset = off, currentTick = 0, runningStatus = Some 0, trackProgram = Some 0,
      trackVolume = Some (4 / 5), trackTempo = tempoHint, activeNotes = Map.empty, noteEvents = []\<rparr>"

definition parseMidiTrack :: "int list \<Rightarrow> int \<Rightarrow> int \<Rightarrow> int \<Rightarrow> TrackState option" where
  "parseMidiTrack data off trackLength tempoHint =
     parseMidiTrackLoop data (off + trackLength) (trackStart off tempoHint)"

fun parseTracks :: "int list \<Rightarrow> nat \<Rightarrow> nat \<Rightarrow> int \<Rightarrow> int \<Rightarrow> ParsedMidiTrack list
    \<Rightarrow> (error + int \<times> ParsedMidiTrack list) option" where
  "parseTracks data 0 trackIndex off tmp trks = Some (Inr (tmp, trks))"
| "parseTracks data (Suc n) trackIndex off tmp trks =
     (if subarray data off (off + 4) \<noteq> MTrk then Some (Inl MidiTrackHeaderInvalid)
      else let trackLength = readUInt32BE data (off + 4)
           in case parseMidiTrack data (off + 8) trackLength tmp of
                None \<Rightarrow> None
              | Some parsed \<Rightarrow>
                  parseTracks data n (trackIndex + 1) (off + 8 + trackLength)
                    (if trackIndex = 0 then trackTempo parsed else tmp)
                    (trks @ [\<lparr>program_t = trackProgram parsed, volume_t = trackVolume parsed,
                              noteEvents_t = noteEvents parsed\<rparr>]))"

definition parseMidiBuffer :: "int list \<Rightarrow> (error + ParsedMidiData) option" where
  "parseMidiBuffer data =
     (if subarray data 0 4 \<noteq> MThd then Some (Inl MidiHeaderInvalid)
      else let headerLength = readUInt32BE data 4;
               numTracks = u16At data 10;
               tpb = u16At data 12
           in if numTracks < 1 then Some (Inl MidiTrackCountInvalid)
              else case parseTracks data (nat numTracks) 0 (8 + headerLength) 500000 [] of
                     None \<Rightarrow> None
                   | Some (Inl e) \<Rightarrow> Some (Inl e)
                   | Some (Inr (tmp, trks)) \<Rightarrow>
                       Some (Inr \<lparr>ticksPerBeat = tpb, tempo = tmp, tracks = trks\<rparr>))"



section \<open>Score reconstructor\<close>

text \<open>
  The quotient of two integers, the divisor being \<open>+0\<close> when it is 0, and the sum of two
  numbers that need not be finite.
\<close>

definition jsDiv :: "int \<Rightarrow> int \<Rightarrow> jsnum" where
  "jsDiv a b =
     (if b \<noteq> 0 then Fin (of_int a / of_int b)
      else if 0 < a then PInf else if a < 0 then NInf else NaN)"

definition jsAdd :: "jsnum \<Rightarrow> jsnum \<Rightarrow> jsnum" where
  "jsAdd x y =
     (case (x, y) of
        (Fin a, Fin b) \<Rightarrow> Fin (a + b)
      | (NaN, _) \<Rightarrow> NaN
      | (_, NaN) \<Rightarrow> NaN
      | (PInf, NInf) \<Rightarrow> NaN
      | (NInf, PInf) \<Rightarrow> NaN
      | (PInf, _) \<Rightarrow> PInf
      | (_, PInf) \<Rightarrow> PInf
      | (NInf, _) \<Rightarrow> NInf
      | (_, NInf) \<Rightarrow> NInf)"

text \<open>\<open>Math.max(0.5, Math.round(beats * 2) / 2)\<close>; \<open>Math.max\<close> of a \<open>NaN\<close> is \<open>NaN\<close>.\<close>

definition quantizeBeats :: "jsnum \<Rightarrow> jsnum" where
  "quantizeBeats beats =
     (case beats of
        Fin x \<Rightarrow> Fin (max (1 / 2) (of_int (jsRound (x * 2)) / 2))
      | PInf \<Rightarrow> PInf
      | NInf \<Rightarrow> Fin (1 / 2)
      | NaN \<Rightarrow> NaN)"

type_synonym groups = "((int \<times> int) \<times> MidiNoteEvent list) list"

definition groupInsert :: "groups \<Rightarrow> MidiNoteEvent \<Rightarrow> groups" where
  "groupInsert grouped noteEvent =
     (let k = (startTick noteEvent, endTick noteEvent)
      in case map_of grouped k of
           None \<Rightarrow> grouped @ [(k, [noteEvent])]
         | Some _ \<Rightarrow> map (\<lambda>(k', l). if k' = k then (k', l @ [noteEvent]) else (k', l)) grouped)"

text \<open>
  The group key is the string \<open>`${startTick}-${endTick}`\<close>, which determines the two
  integers; \<open>key.split("-").map(Number)\<close> gives them back when neither is negative. A minus
  sign of a negative tick is taken for a separator, and the empty piece converts to 0.
\<close>

definition splitKey :: "int \<times> int \<Rightarrow> int \<times> int" where
  "splitKey k = (case k of (s, e) \<Rightarrow> if s < 0 then (0, - s) else if e < 0 then (s, 0) else (s, e))"

text \<open>
  \<open>a.note - b.note\<close>, which is \<open>NaN\<close> when a note is \<open>undefined\<close>; \<open>sort\<close> takes a \<open>NaN\<close>
  from its comparison function for 0. (The order that \<open>sort\<close> gives is then the
  implementation's where the comparison is not consistent; \<open>sortBy\<close> is the insertion sort. The
  reader returns no note event whose note is \<open>undefined\<close>.)
\<close>

definition compareNotes :: "MidiNoteEvent \<Rightarrow> MidiNoteEvent \<Rightarrow> int" where
  "compareNotes a b =
     (case (noteNumber a, noteNumber b) of
        (Some x, Some y) \<Rightarrow> x - y
      | _ \<Rightarrow> 0)"

fun buildLoop :: "groups \<Rightarrow> jsnum ScoreHeader \<Rightarrow> int \<Rightarrow> (int \<times> int) list \<Rightarrow> int
    \<Rightarrow> jsnum ScoreEvent list \<Rightarrow> jsnum \<Rightarrow> jsnum ScoreEvent list \<times> jsnum" where
  "buildLoop grouped h tpb [] cur evs tb = (evs, tb)"
| "buildLoop grouped h tpb (timePoint # rest) cur evs tb =
     (case timePoint of (start, end) \<Rightarrow>
        let restBeats = quantizeBeats (jsDiv (start - cur) tpb);
            gap = start > cur;
            evs1 = (if gap then evs @ [\<lparr>type = Rest, durationBeats = restBeats, eventNotes = []\<rparr>]
                    else evs);
            tb1 = (if gap then jsAdd tb restBeats else tb);
            ns = (case map_of grouped (start, end) of Some l \<Rightarrow> l | None \<Rightarrow> []);
            duration = quantizeBeats (jsDiv (end - start) tpb);
            noteSpecs = map (\<lambda>noteEvent. midiNoteToSpec (noteNumber noteEvent) h)
                            (sortBy compareNotes ns)
        in buildLoop grouped h tpb rest end
             (evs1 @ [\<lparr>type = (if length noteSpecs > 1 then Chord else Note),
                       durationBeats = duration, eventNotes = noteSpecs\<rparr>])
             (jsAdd tb1 duration))"

definition buildScoreFromNoteEvents :: "MidiNoteEvent list \<Rightarrow> jsnum ScoreHeader \<Rightarrow> int \<Rightarrow> jsnum ParsedScore" where
  "buildScoreFromNoteEvents nes h tpb =
     (let grouped = foldl groupInsert [] nes;
          timePoints = sortBy (\<lambda>a b. fst a - fst b) (map (splitKey \<circ> fst) grouped)
      in case buildLoop grouped h tpb timePoints 0 [] (Fin 0) of
           (evs, tb) \<Rightarrow> \<lparr>header = h, events = evs, totalBeats = tb\<rparr>)"

text \<open>
  \<open>Math.max(30, Math.round(60000000 / tempo))\<close>, which is \<open>Infinity\<close> for a tempo of 0. The
  volume of a track is \<open>NaN\<close> and its program \<open>undefined\<close> when the reader has read them past
  the end of the file.
\<close>

definition bpmOfTempo :: "int \<Rightarrow> jsnum" where
  "bpmOfTempo tmp = (if tmp = 0 then PInf else Fin (of_int (max 30 (jsRound (60000000 / of_int tmp)))))"

definition trackToScore :: "int \<Rightarrow> jsnum \<Rightarrow> ParsedMidiTrack \<Rightarrow> jsnum ParsedScore" where
  "trackToScore tpb b track =
     buildScoreFromNoteEvents (noteEvents_t track)
       \<lparr>key = str ''C'', bpm = b,
        volume = (case volume_t track of Some v \<Rightarrow> Fin v | None \<Rightarrow> NaN),
        octave = 4,
        program = (case program_t track of Some p \<Rightarrow> PNum p | None \<Rightarrow> PUndefined)\<rparr> tpb"

definition midiToScores :: "int list \<Rightarrow> (error + jsnum ParsedScore list) option" where
  "midiToScores midiBuffer =
     (case parseMidiBuffer midiBuffer of
        None \<Rightarrow> None
      | Some (Inl e) \<Rightarrow> Some (Inl e)
      | Some (Inr d) \<Rightarrow>
          Some (Inr (map (trackToScore (ticksPerBeat d) (bpmOfTempo (tempo d))) (tracks d))))"


section \<open>Notation printer\<close>

text \<open>
  The text of a number: the decimal digits of an integer below \<open>10^21\<close> in absolute value,
  the engine's text of any other finite number, and the names of the others.
\<close>

function digitsOf :: "nat \<Rightarrow> jsstring" where
  "digitsOf n = (if n < 10 then [48 + n] else digitsOf (n div 10) @ [48 + n mod 10])"
  by pat_completeness auto
termination
  by (relation "measure id") auto

declare digitsOf.simps [simp del]

definition decimal :: "int \<Rightarrow> jsstring" where
  "decimal i = (if i < 0 then of_char CHR ''-'' # digitsOf (nat (- i)) else digitsOf (nat i))"

definition numberToString :: "engine \<Rightarrow> jsnum \<Rightarrow> jsstring" where
  "numberToString E x =
     (case x of
        Fin r \<Rightarrow>
          if of_int \<lfloor>r\<rfloor> = r \<and> \<bar>r\<bar> < 1000000000000000000000 then decimal \<lfloor>r\<rfloor>
          else showNumber E r
      | PInf \<Rightarrow> str ''Infinity''
      | NInf \<Rightarrow> str ''-Infinity''
      | NaN \<Rightarrow> str ''NaN'')"

definition programToString :: "engine \<Rightarrow> progval \<Rightarrow> jsstring" where
  "programToString E p =
     (case p of
        PNum n \<Rightarrow> numberToString E (Fin (of_int n))
      | PObject name \<Rightarrow> showInherited E name
      | PUndefined \<Rightarrow> str ''undefined'')"

text \<open>
  \<open>"~".repeat(count)\<close> throws a \<open>RangeError\<close> for a count of \<open>Infinity\<close> and takes a count of
  \<open>NaN\<close> for 0. No comparison with \<open>NaN\<close> holds. The \<open>epsilon\<close> is \<open>0.0001\<close>.
\<close>

definition durationToTokens :: "jsnum \<Rightarrow> error + jsstring" where
  "durationToTokens duration =
     (case duration of
        Fin d \<Rightarrow>
          let base = max 1 \<lfloor>d\<rfloor>;
              isInteger = \<bar>d - of_int base\<bar> < 1 / 10000;
              isDotted = \<bar>d - (of_int base + 1 / 2)\<bar> < 1 / 10000
          in if isInteger then Inr (replicate (nat (max 0 (base - 1))) (of_char CHR ''~''))
             else if isDotted
               then Inr (of_char CHR ''.'' # replicate (nat (max 0 (base - 1))) (of_char CHR ''~''))
             else Inr (replicate (nat (max 0 (jsRound d - 1))) (of_char CHR ''~''))
      | PInf \<Rightarrow> Inl RangeError
      | NInf \<Rightarrow> Inr []
      | NaN \<Rightarrow> Inr [])"

definition noteToText :: "engine \<Rightarrow> NoteSpec \<Rightarrow> jsstring" where
  "noteToText E note =
     (let octaveMods =
            (case octaveShift note of
               None \<Rightarrow> []
             | Some shift \<Rightarrow>
                 (if shift > 0 then replicate (nat shift) (of_char CHR ''+'') else [])
                 @ (if shift < 0 then replicate (nat (- shift)) (of_char CHR ''-'') else []));
          accidentalMods =
            (if accidental note > 0 then replicate (nat (accidental note)) (of_char CHR ''#'') else [])
            @ (if accidental note < 0 then replicate (nat (- accidental note)) (of_char CHR ''b'') else [])
      in numberToString E (Fin (of_int (degree note))) @ octaveMods @ accidentalMods)"

text \<open>
  The token of an event. \<open>event.notes[0]\<close> of an event without notes is \<open>undefined\<close>, and
  reading its octave shift throws a \<open>TypeError\<close>.
\<close>

definition eventToText :: "engine \<Rightarrow> jsnum ScoreEvent \<Rightarrow> error + jsstring" where
  "eventToText E event =
     (case durationToTokens (durationBeats event) of
        Inl err \<Rightarrow> Inl err
      | Inr duration \<Rightarrow>
          if type event = Rest then Inr (of_char CHR ''0'' # duration)
          else if type event = Chord
            then Inr ([of_char CHR ''(''] @ concat (map (noteToText E) (eventNotes event))
                      @ [of_char CHR '')''] @ duration)
          else (case eventNotes event of
                  [] \<Rightarrow> Inl TypeError
                | note # _ \<Rightarrow> Inr (noteToText E note @ duration)))"

fun sequence :: "(error + 'a) list \<Rightarrow> error + 'a list" where
  "sequence [] = Inr []"
| "sequence (x # xs) =
     (case x of
        Inl e \<Rightarrow> Inl e
      | Inr v \<Rightarrow> (case sequence xs of Inl e \<Rightarrow> Inl e | Inr vs \<Rightarrow> Inr (v # vs)))"

fun joinWith :: "jsstring \<Rightarrow> jsstring list \<Rightarrow> jsstring" where
  "joinWith sep [] = []"
| "joinWith sep [x] = x"
| "joinWith sep (x # y # ys) = x @ sep @ joinWith sep (y # ys)"

definition headerText :: "engine \<Rightarrow> jsnum ScoreHeader \<Rightarrow> jsstring" where
  "headerText E h =
     str ''[Key='' @ key h @ str '' Instr='' @ programToString E (program h)
     @ str '' BPM='' @ numberToString E (bpm h) @ str '' Vol='' @ numberToString E (volume h)
     @ str '' Oct='' @ numberToString E (Fin (of_int (octave h))) @ str '']''"

definition scoreToText :: "engine \<Rightarrow> jsnum ParsedScore \<Rightarrow> error + jsstring" where
  "scoreToText E score =
     (case sequence (map (eventToText E) (events score)) of
        Inl err \<Rightarrow> Inl err
      | Inr tokens \<Rightarrow> Inr (headerText E (header score) @ [10] @ joinWith [32] tokens))"


section \<open>The round trip\<close>

text \<open>Text to score to file to scores to texts, one text for each track.\<close>

definition roundTrip :: "engine \<Rightarrow> jsstring \<Rightarrow> (error + jsstring list) option" where
  "roundTrip E t =
     (case parseScore E t of
        Inl e \<Rightarrow> Some (Inl e)
      | Inr score \<Rightarrow>
          (case scoreToMidiBuffer score of
             None \<Rightarrow> None
           | Some (Inl e) \<Rightarrow> Some (Inl e)
           | Some (Inr buf) \<Rightarrow>
               (case midiToScores buf of
                  None \<Rightarrow> None
                | Some (Inl e) \<Rightarrow> Some (Inl e)
                | Some (Inr scores) \<Rightarrow> Some (sequence (map (scoreToText E) scores)))))"

section \<open>Definitions for the statements\<close>

text \<open>
  What the statements below need besides the program: the words of the specification where
  a statement compares the program with them, the encodings of the file format, the lists
  and scores that the writer, the reader and the reconstructor are shown to produce, and the
  texts, scores and files of the concrete runs.
\<close>



text \<open>The degree and accidental that the loop finds for each of the twelve pitch classes.\<close>

definition spellTable :: "(int \<times> int \<times> int) list" where
  "spellTable = [(0, 1, 0), (1, 1, 1), (2, 2, 0), (3, 2, 1), (4, 3, 0), (5, 4, 0),
                 (6, 4, 1), (7, 5, 0), (8, 5, 1), (9, 6, 0), (10, 6, 1), (11, 7, 0)]"







text \<open>The variable-length quantity of a number below \<open>2^28\<close>, as the file format defines it.\<close>

definition vlq :: "int \<Rightarrow> int list" where
  "vlq v =
     (if v < 128 then [v]
      else if v < 16384 then [v div 128 + 128, v mod 128]
      else if v < 2097152 then [v div 16384 + 128, v div 128 mod 128 + 128, v mod 128]
      else [v div 2097152 + 128, v div 16384 mod 128 + 128, v div 128 mod 128 + 128, v mod 128])"

text \<open>The bytes \<open>bs\<close> stand in \<open>data\<close> from the offset \<open>off\<close> on.\<close>

definition occursAt :: "int list \<Rightarrow> int \<Rightarrow> int list \<Rightarrow> bool" where
  "occursAt data off xs \<longleftrightarrow> 0 \<le> off \<and> take (length xs) (drop (nat off) data) = xs"

definition isByte :: "int \<Rightarrow> bool" where
  "isByte b \<longleftrightarrow> 0 \<le> b \<and> b < 256"

text \<open>The bytes of a message as the file has them.\<close>

definition wire :: "MidiEvent \<Rightarrow> int list" where
  "wire m = map toUint8 (bytes m)"


fun encSpec :: "MidiEvent list \<Rightarrow> int \<Rightarrow> int list" where
  "encSpec [] lt = []"
| "encSpec (m # ms) lt = vlq (tick m - lt) @ wire m @ encSpec ms (tick m)"

fun deltasOk :: "MidiEvent list \<Rightarrow> int \<Rightarrow> bool" where
  "deltasOk [] lt = True"
| "deltasOk (m # ms) lt = (0 \<le> tick m - lt \<and> tick m - lt < 268435456 \<and> deltasOk ms (tick m))"

text \<open>
  A note-on or note-off message on channel 0, by its bytes in the file, and what the
  reader's loop does with it.
\<close>

definition isNoteMsg :: "MidiEvent \<Rightarrow> bool" where
  "isNoteMsg m \<longleftrightarrow> (\<exists>n vel. wire m = [0x90, n, vel] \<and> vel \<noteq> 0) \<or> (\<exists>n x. wire m = [0x80, n, x])"

definition applyNoteMsg :: "TrackState \<Rightarrow> MidiEvent \<Rightarrow> TrackState" where
  "applyNoteMsg s m =
     (let s' = s\<lparr>offset := offset s + int (length (vlq (tick m - currentTick s))) + 3,
                 currentTick := tick m, runningStatus := Some (wire m ! 0)\<rparr>
      in if wire m ! 0 = 0x90
         then s'\<lparr>activeNotes := (activeNotes s)((0, Some (wire m ! 1)) \<mapsto> (tick m, Some (wire m ! 2)))\<rparr>
         else closeNote s' (0, Some (wire m ! 1)))"

text \<open>
  The pitches and the ticks of an event at the resolution 480, the note-on and note-off
  messages of a chord, and the messages of a score in the order that the sort gives them.
\<close>

definition pitches :: "rat ScoreHeader \<Rightarrow> rat ScoreEvent \<Rightarrow> int option list" where
  "pitches h e = map (\<lambda>n. degreeToMidi (degree n) (octaveShift n) (accidental n) h) (eventNotes e)"

definition ticksOf :: "rat ScoreEvent \<Rightarrow> int" where
  "ticksOf e = jsRound (durationBeats e * 480)"

definition ons :: "int \<Rightarrow> int \<Rightarrow> int option list \<Rightarrow> MidiEvent list" where
  "ons t v ns = map (\<lambda>n. \<lparr>tick = t, order = 3, bytes = [Some 0x90, n, Some v]\<rparr>) ns"

definition offs :: "int \<Rightarrow> int option list \<Rightarrow> MidiEvent list" where
  "offs t ns = map (\<lambda>n. \<lparr>tick = t, order = 0, bytes = [Some 0x80, n, Some 0]\<rparr>) ns"

fun sortedNotes :: "rat ScoreHeader \<Rightarrow> int \<Rightarrow> rat ScoreEvent list \<Rightarrow> int \<Rightarrow> MidiEvent list" where
  "sortedNotes h v [] t = []"
| "sortedNotes h v (e # es) t =
     (if type e = Rest then [] else ons t v (pitches h e) @ offs (t + ticksOf e) (pitches h e))
     @ sortedNotes h v es (t + ticksOf e)"

abbreviation msgKey :: "MidiEvent \<Rightarrow> int \<times> int" where
  "msgKey \<equiv> (\<lambda>m. (tick m, order m))"


















section \<open>Properties\<close>

lemma js_rem_12: "js_rem (js_rem d 12 + 12) 12 = d mod 12"
proof (cases "d \<ge> 0")
  case True
  then show ?thesis by (simp add: js_rem_def sgn_if)
next
  case False
  then show ?thesis 
    apply (simp add: js_rem_def sgn_if zmod_zminus1_eq_if)
    by presburger
qed

lemma spellLoop_table:
  "spellLoop 0 = (1, 0, Some 0)" "spellLoop 1 = (1, 1, Some 1)" "spellLoop 2 = (2, 0, Some 0)"
  "spellLoop 3 = (2, 1, Some 1)" "spellLoop 4 = (3, 0, Some 0)" "spellLoop 5 = (4, 0, Some 0)"
  "spellLoop 6 = (4, 1, Some 1)" "spellLoop 7 = (5, 0, Some 0)" "spellLoop 8 = (5, 1, Some 1)"
  "spellLoop 9 = (6, 0, Some 0)" "spellLoop 10 = (6, 1, Some 1)" "spellLoop 11 = (7, 0, Some 0)"
  by (simp_all add: spellLoop_def spellStep_def foldAccidental_def scaleOffset_def MAJOR_SCALE_def)

lemma spellLoop_spellTable:
  assumes "0 \<le> pc" "pc < 12"
  shows "\<exists>d a ds. (pc, d, a) \<in> set spellTable \<and> spellLoop pc = (d, a, ds)"
proof -
  from assms have "pc = 0 \<or> pc = 1 \<or> pc = 2 \<or> pc = 3 \<or> pc = 4 \<or> pc = 5 \<or> pc = 6
      \<or> pc = 7 \<or> pc = 8 \<or> pc = 9 \<or> pc = 10 \<or> pc = 11"
    by arith
  then show ?thesis
    by (elim disjE) (simp_all add: spellLoop_table spellTable_def)
qed

lemma tonic_table:
  assumes "key h \<in> dom KEY_OFFSETS"
  shows "tonic h = Some (12 * (octave h + 1) + the (KEY_OFFSETS (key h)))"
  using assms by (auto simp: tonic_def keyOffset_def lookupObject_def)

lemma midiNoteToSpec_spellTable:
  assumes "tonic h = Some t"
  shows "\<exists>d a. ((n - t) mod 12, d, a) \<in> set spellTable \<and>
     midiNoteToSpec (Some n) h = \<lparr>degree = d, octaveShift = Some ((n - t) div 12), accidental = a\<rparr>"
proof -
  have "0 \<le> (n - t) mod 12" "(n - t) mod 12 < 12" by simp_all
  from spellLoop_spellTable[OF this] obtain d a ds where
    "((n - t) mod 12, d, a) \<in> set spellTable" "spellLoop ((n - t) mod 12) = (d, a, ds)"
    by blast
  then show ?thesis
    by (auto simp: midiNoteToSpec_def assms js_rem_12 Let_def)
qed

lemma midiNoteToSpec_NaN:
  "n = None \<or> tonic h = None \<Longrightarrow> midiNoteToSpec n h = \<lparr>degree = 1, octaveShift = None, accidental = 0\<rparr>"
  by (auto simp: midiNoteToSpec_def split: option.splits)

lemma spellTable_sum: "(pc, d, a) \<in> set spellTable \<Longrightarrow> scaleOffset d + a = pc"
  by (auto simp: spellTable_def scaleOffset_def MAJOR_SCALE_def)

lemma spellTable_range:
  "(pc, d, a) \<in> set spellTable \<Longrightarrow> 1 \<le> d \<and> d \<le> 7 \<and> a \<in> {- 1, 0, 1}"
  by (auto simp: spellTable_def)

text \<open>
  Claim C10. For every pitch and header, the note returned by \<open>midiNoteToSpec\<close> has a degree in
  1..7 and an accidental in {-1, 0, 1}.
\<close>

theorem midiNoteToSpec_range:
  "1 \<le> degree (midiNoteToSpec n h) \<and> degree (midiNoteToSpec n h) \<le> 7 \<and>
   accidental (midiNoteToSpec n h) \<in> {- 1, 0, 1}"
proof (cases "n = None \<or> tonic h = None")
  case True
  then show ?thesis by (simp add: midiNoteToSpec_NaN)
next
  case False
  then obtain p t where n: "n = Some p" and t: "tonic h = Some t" by auto
  obtain d a where "((p - t) mod 12, d, a) \<in> set spellTable"
    and "midiNoteToSpec (Some p) h = \<lparr>degree = d, octaveShift = Some ((p - t) div 12), accidental = a\<rparr>"
    using midiNoteToSpec_spellTable[OF t] by blast
  then show ?thesis using spellTable_range[of "(p - t) mod 12" d a] by (simp add: n)
qed

text \<open>
  Claim C9. For a pitch in 0..127 and a header whose key is in the key table, \<open>degreeToMidi\<close>
  of the note that \<open>midiNoteToSpec\<close> returns is the pitch again.
\<close>

theorem degreeToMidi_midiNoteToSpec:
  assumes "0 \<le> p" "p \<le> 127" "key h \<in> dom KEY_OFFSETS"
  shows "degreeToMidi (degree (midiNoteToSpec (Some p) h)) (octaveShift (midiNoteToSpec (Some p) h))
           (accidental (midiNoteToSpec (Some p) h)) h = Some p"
proof -
  obtain tn where tn: "tonic h = Some tn" using tonic_table[OF assms(3)] by simp
  obtain d a where t: "((p - tn) mod 12, d, a) \<in> set spellTable"
    and r: "midiNoteToSpec (Some p) h = \<lparr>degree = d, octaveShift = Some ((p - tn) div 12), accidental = a\<rparr>"
    using midiNoteToSpec_spellTable[OF tn] by blast
  have "scaleOffset d + a = (p - tn) mod 12" using t by (rule spellTable_sum)
  moreover have "(p - tn) div 12 * 12 + (p - tn) mod 12 = p - tn"
    by simp
  ultimately have "tn + scaleOffset d + a + ((p - tn) div 12) * 12 = p"
    by linarith
  with assms r show ?thesis by (simp add: degreeToMidi_def midiRaw_def tn clamp_def)
qed

lemma key_DEFAULT: "key DEFAULT_HEADER \<in> dom KEY_OFFSETS"
  by (simp add: DEFAULT_HEADER_def KEY_OFFSETS_def str_def)

lemma tonic_DEFAULT: "tonic DEFAULT_HEADER = Some 60"
  by (simp add: tonic_table[OF key_DEFAULT]) (simp add: DEFAULT_HEADER_def KEY_OFFSETS_def str_def)

theorem degreeToMidi_midiNoteToSpec_witness:
  "(0::int) \<le> 61 \<and> (61::int) \<le> 127 \<and> key DEFAULT_HEADER \<in> dom KEY_OFFSETS \<and>
   degreeToMidi (degree (midiNoteToSpec (Some 61) DEFAULT_HEADER))
     (octaveShift (midiNoteToSpec (Some 61) DEFAULT_HEADER))
     (accidental (midiNoteToSpec (Some 61) DEFAULT_HEADER)) DEFAULT_HEADER = Some 61"
  using degreeToMidi_midiNoteToSpec[of 61 DEFAULT_HEADER, OF _ _ key_DEFAULT] key_DEFAULT by simp

lemma degree_cases: "1 \<le> (d::int) \<Longrightarrow> d \<le> 7 \<Longrightarrow> d = 1 \<or> d = 2 \<or> d = 3 \<or> d = 4 \<or> d = 5 \<or> d = 6 \<or> d = 7"
  by arith



lemma degreeToMidi_raw: "midiRaw d os a h = Some m \<Longrightarrow> 0 \<le> m \<Longrightarrow> m \<le> 127 \<Longrightarrow> degreeToMidi d os a h = Some m"
  by (simp add: degreeToMidi_def clamp_def)

lemma scaleOffset_cases:
  assumes "1 \<le> d" "d \<le> 7"
  shows "(d, scaleOffset d) \<in> {(1, 0), (2, 2), (3, 4), (4, 5), (5, 7), (6, 9), (7, 11)}"
  using degree_cases[OF assms] by (elim disjE) (simp_all add: scaleOffset_def MAJOR_SCALE_def)

lemma spellTable_natural:
  assumes "1 \<le> d" "d \<le> 7" "(scaleOffset d, d', a') \<in> set spellTable"
  shows "d' = d \<and> a' = 0"
  using scaleOffset_cases[OF assms(1,2)] assms(3)
  by (auto simp: spellTable_def)

lemma spellTable_sharp:
  assumes "1 \<le> d" "d \<le> 7" "d \<noteq> 3" "d \<noteq> 7" "(scaleOffset d + 1, d', a') \<in> set spellTable"
  shows "d' = d \<and> a' = 1"
  using scaleOffset_cases[OF assms(1,2)] assms(3,4,5)
  by (auto simp: spellTable_def)

lemma scaleOffset_bounds: "1 \<le> d \<Longrightarrow> d \<le> 7 \<Longrightarrow> 0 \<le> scaleOffset d \<and> scaleOffset d \<le> 11"
  using scaleOffset_cases[of d] by auto

text \<open>
  Claim C2, as amended. For a degree in 1..7, a header whose key is in the key table and a
  pitch \<open>midiRaw d os a h\<close> (the value of \<open>degreeToMidi\<close> before clamping) in 0..127, the
  accidental of \<open>midiNoteToSpec\<close> applied to that pitch is no larger in absolute value than
  the original one. With octave shift 0 the original note comes back exactly when the
  accidental is 0, and when it is 1 on a degree other than 3 and 7. (A flat, and a sharp on
  degree 3 or 7, come back respelled: see the counterexample.)
\<close>

theorem degreeToMidi_respelling:
  fixes d os a m :: int and h :: "'n ScoreHeader"
  defines "r \<equiv> midiNoteToSpec (degreeToMidi d (Some os) a h) h"
  assumes d: "1 \<le> d" "d \<le> 7" and k: "key h \<in> dom KEY_OFFSETS"
    and raw: "midiRaw d (Some os) a h = Some m" and lo: "0 \<le> m" and hi: "m \<le> 127"
  shows "\<bar>accidental r\<bar> \<le> \<bar>a\<bar> \<and>
         (os = 0 \<and> (a = 0 \<or> a = 1 \<and> d \<noteq> 3 \<and> d \<noteq> 7) \<longrightarrow>
            r = \<lparr>degree = d, octaveShift = Some os, accidental = a\<rparr>)"
proof -
  define diff where "diff = scaleOffset d + a + os * 12"
  obtain tn where tn: "tonic h = Some tn" using tonic_table[OF k] by simp
  have p: "degreeToMidi d (Some os) a h = Some m" and md: "m - tn = diff"
    using degreeToMidi_raw[OF raw lo hi] raw by (simp_all add: midiRaw_def diff_def tn)
  obtain d' a' where t: "(diff mod 12, d', a') \<in> set spellTable"
    and r: "r = \<lparr>degree = d', octaveShift = Some (diff div 12), accidental = a'\<rparr>"
    using midiNoteToSpec_spellTable[OF tn, of m] by (auto simp: p md r_def)
  have sb: "0 \<le> scaleOffset d" "scaleOffset d \<le> 11"
    using scaleOffset_bounds[OF d] by simp_all
  have part1: "\<bar>accidental r\<bar> \<le> \<bar>a\<bar>"
  proof (cases "a = 0")
    case True
    then have "diff mod 12 = scaleOffset d" using sb by (simp add: diff_def)
    with t spellTable_natural[OF d] have "a' = 0" by simp
    then show ?thesis by (simp add: r)
  next
    case False
    moreover have "\<bar>a'\<bar> \<le> 1" using spellTable_range[OF t] by auto
    ultimately show ?thesis by (simp add: r)
  qed
  have part2: "r = \<lparr>degree = d, octaveShift = Some os, accidental = a\<rparr>"
    if "os = 0" "a = 0 \<or> a = 1 \<and> d \<noteq> 3 \<and> d \<noteq> 7"
  proof -
    from that(2) show ?thesis
    proof
      assume a0: "a = 0"
      then have "diff = scaleOffset d" using that(1) by (simp add: diff_def)
      then have "diff mod 12 = scaleOffset d" "diff div 12 = 0" using sb by simp_all
      with t spellTable_natural[OF d] a0 that(1) show ?thesis by (simp add: r)
    next
      assume a1: "a = 1 \<and> d \<noteq> 3 \<and> d \<noteq> 7"
      then have "scaleOffset d \<noteq> 11" using scaleOffset_cases[OF d] by auto
      then have "scaleOffset d + 1 \<le> 11" using sb by simp
      moreover have "diff = scaleOffset d + 1" using that(1) a1 by (simp add: diff_def)
      ultimately have "diff mod 12 = scaleOffset d + 1" "diff div 12 = 0" using sb by simp_all
      with t spellTable_sharp[OF d, of d' a'] a1 that(1) show ?thesis by (simp add: r)
    qed
  qed
  from part1 part2 show ?thesis by blast
qed

lemma midiRaw_DEFAULT: "midiRaw d (Some os) a DEFAULT_HEADER = Some (60 + scaleOffset d + a + os * 12)"
  by (simp add: midiRaw_def tonic_DEFAULT)

theorem degreeToMidi_respelling_witness:
  "(1::int) \<le> 4 \<and> (4::int) \<le> 7 \<and> key DEFAULT_HEADER \<in> dom KEY_OFFSETS \<and>
   midiRaw 4 (Some 0) 1 DEFAULT_HEADER = Some 66 \<and> (0::int) \<le> 66 \<and> (66::int) \<le> 127 \<and>
   \<bar>accidental (midiNoteToSpec (degreeToMidi 4 (Some 0) 1 DEFAULT_HEADER) DEFAULT_HEADER)\<bar> \<le> \<bar>1::int\<bar> \<and>
   midiNoteToSpec (degreeToMidi 4 (Some 0) 1 DEFAULT_HEADER) DEFAULT_HEADER =
     \<lparr>degree = 4, octaveShift = Some 0, accidental = 1\<rparr>"
proof -
  have m: "midiRaw 4 (Some 0) 1 DEFAULT_HEADER = Some 66"
    by (simp add: midiRaw_DEFAULT scaleOffset_def MAJOR_SCALE_def)
  show ?thesis
    using degreeToMidi_respelling[of 4 DEFAULT_HEADER 0 1 66] key_DEFAULT m by simp
qed

lemma midiNoteToSpec_65:
  "midiNoteToSpec (Some 65) DEFAULT_HEADER = \<lparr>degree = 4, octaveShift = Some 0, accidental = 0\<rparr>"
  by (simp add: midiNoteToSpec_def tonic_DEFAULT js_rem_def spellLoop_table)

text \<open>
  Claim C2 as stated fails: degree 3 with one sharp in C (pitch 65) comes back as degree 4
  without accidental.
\<close>

theorem degreeToMidi_exact_roundtrip_counterexample:
  "(3::int) \<in> {1..7} \<and> key DEFAULT_HEADER \<in> dom KEY_OFFSETS \<and> (1::int) \<in> {- 1, 0, 1} \<and>
   midiRaw 3 (Some 0) 1 DEFAULT_HEADER = Some 65 \<and> degreeToMidi 3 (Some 0) 1 DEFAULT_HEADER = Some 65 \<and>
   midiNoteToSpec (degreeToMidi 3 (Some 0) 1 DEFAULT_HEADER) DEFAULT_HEADER
     = \<lparr>degree = 4, octaveShift = Some 0, accidental = 0\<rparr> \<and>
   midiNoteToSpec (degreeToMidi 3 (Some 0) 1 DEFAULT_HEADER) DEFAULT_HEADER
     \<noteq> \<lparr>degree = 3, octaveShift = Some 0, accidental = 1\<rparr>"
proof -
  have m: "midiRaw 3 (Some 0) 1 DEFAULT_HEADER = Some 65"
    by (simp add: midiRaw_DEFAULT scaleOffset_def MAJOR_SCALE_def)
  then have d: "degreeToMidi 3 (Some 0) 1 DEFAULT_HEADER = Some 65"
    by (simp add: degreeToMidi_raw)
  from m d key_DEFAULT show ?thesis
    by (simp add: midiNoteToSpec_65)
qed



subsection \<open>Reader: format errors\<close>



subsection \<open>Reader: unrolling the track loop\<close>

lemma parseMidiTrackLoop_step:
  "offset s < e \<Longrightarrow> parseMidiTrackLoop data e s = parseMidiTrackLoop data e (trackStep data s)"
  by (subst parseMidiTrackLoop.simps) simp





subsection \<open>Reader: unmatched closes and pending notes\<close>










lemma toInt32_id: "- 2147483648 \<le> x \<Longrightarrow> x < 2147483648 \<Longrightarrow> toInt32 x = x"
  unfolding toInt32_def by (rule signed_take_bit_int_eq_self) simp_all

lemma and_127: "(x::int) AND 127 = x mod 128"
proof -
  have m: "mask 7 = (127::int)" by (simp add: mask_eq_exp_minus_1)
  have "x AND mask 7 = x mod 2 ^ 7"
    by (simp only: take_bit_eq_mask[symmetric] take_bit_eq_mod)
  then show ?thesis by (simp only: m) simp
qed

lemma and_255: "(x::int) AND 255 = x mod 256"
proof -
  have m: "mask 8 = (255::int)" by (simp add: mask_eq_exp_minus_1)
  have "x AND mask 8 = x mod 2 ^ 8"
    by (simp only: take_bit_eq_mask[symmetric] take_bit_eq_mod)
  then show ?thesis by (simp only: m) simp
qed

lemma and_128_zero: "(x::int) AND 128 = 0 \<longleftrightarrow> even (x div 128)"
proof -
  have "x AND 2 ^ 7 = 0 \<longleftrightarrow> \<not> bit x 7" by (rule and_exp_eq_0_iff_not_bit)
  then show ?thesis by (simp add: bit_iff_odd)
qed

lemma or_shift_add:
  fixes x y :: int
  assumes "0 \<le> y" "y < 2 ^ n"
  shows "push_bit n x OR y = x * 2 ^ n + y"
proof -
  have y: "take_bit n y = y" using assms by (rule take_bit_int_eq_self)
  have "push_bit n x AND take_bit n y = 0"
    by (rule bit_eqI) (auto simp: bit_simps)
  then have "push_bit n x + y = push_bit n x OR y"
    unfolding y by (rule disjunctive_add_eq_or)
  then show ?thesis by (simp add: push_bit_eq_mult)
qed

lemma js_and_127: "0 \<le> x \<Longrightarrow> x < 2147483648 \<Longrightarrow> js_and x 127 = x mod 128"
  by (simp add: js_and_def toInt32_id and_127)

lemma js_and_255: "0 \<le> x \<Longrightarrow> x < 2147483648 \<Longrightarrow> js_and x 255 = x mod 256"
  by (simp add: js_and_def toInt32_id and_255)

lemma js_and_128: "0 \<le> x \<Longrightarrow> x < 2147483648 \<Longrightarrow> js_and x 128 = 0 \<longleftrightarrow> even (x div 128)"
  by (simp add: js_and_def toInt32_id and_128_zero)

lemma js_sar_div: "0 \<le> x \<Longrightarrow> x < 2147483648 \<Longrightarrow> js_sar x n = x div 2 ^ n"
  by (simp add: js_sar_def toInt32_id drop_bit_eq_div)

lemma js_shl_or:
  assumes "0 \<le> x" "0 \<le> y" "y < 2 ^ n" "x * 2 ^ n + y < 2147483648"
  shows "js_or (js_shl x n) y = x * 2 ^ n + y"
proof -
  have a: "0 \<le> x * 2 ^ n" using assms(1) by simp
  then have b: "x * 2 ^ n < 2147483648" using assms by linarith
  have s: "js_shl x n = x * 2 ^ n"
    unfolding js_shl_def push_bit_eq_mult
    by (rule signed_take_bit_int_eq_self) (use a b in simp_all)
  have y: "toInt32 y = y" using assms a by (intro toInt32_id) linarith+
  have x: "toInt32 (x * 2 ^ n) = x * 2 ^ n" using a b by (intro toInt32_id) linarith+
  have "js_or (js_shl x n) y = push_bit n x OR y"
    by (simp add: js_or_def s x y push_bit_eq_mult)
  then show ?thesis using or_shift_add[OF assms(2,3)] by simp
qed






lemma div_lower:
  fixes v k lo :: int
  assumes "0 < k" "k * lo \<le> v"
  shows "lo \<le> v div k"
proof -
  have e: "k * (v div k) + v mod k = v" by simp
  have m: "v mod k < k" using assms(1) by simp
  have "k * lo < k * (v div k) + k" using assms(2) e m by linarith
  then have "k * lo < k * (v div k + 1)" by (simp add: distrib_left)
  then have "lo < v div k + 1" using assms(1) by (simp only: mult_less_cancel_left_pos)
  then show ?thesis by simp
qed

lemma div_upper:
  fixes v k hi :: int
  assumes "0 < k" "v < k * hi"
  shows "v div k < hi"
proof -
  have e: "k * (v div k) + v mod k = v" by simp
  have m: "0 \<le> v mod k" using assms(1) by simp
  have "k * (v div k) < k * hi" using assms(2) e m by linarith
  then show ?thesis using assms(1) by (simp only: mult_less_cancel_left_pos)
qed

lemma div_div_128: "(v::int) div 128 div 128 = v div 16384" "(v::int) div 16384 div 128 = v div 2097152"
  by (simp_all add: div_mult2_eq[symmetric])






lemma occursAt_append:
  "occursAt data off (xs @ ys) \<longleftrightarrow> occursAt data off xs \<and> occursAt data (off + int (length xs)) ys"
proof (cases "0 \<le> off")
  case True
  have d: "drop (nat (off + int (length xs))) data = drop (length xs) (drop (nat off) data)"
    using True by (simp add: nat_add_distrib add.commute)
  have "take (length xs + length ys) (drop (nat off) data) = xs @ ys \<longleftrightarrow>
        take (length xs) (drop (nat off) data) = xs \<and>
        take (length ys) (drop (length xs) (drop (nat off) data)) = ys"
    (is "?l \<longleftrightarrow> ?r")
  proof
    assume l: ?l
    have "take (length xs) (take (length xs + length ys) (drop (nat off) data)) = xs"
      unfolding l by simp
    moreover have "drop (length xs) (take (length xs + length ys) (drop (nat off) data)) = ys"
      unfolding l by simp
    ultimately show ?r by (simp add: drop_take min_def)
  next
    assume r: ?r
    have "take (length xs + length ys) (drop (nat off) data) =
        take (length xs) (drop (nat off) data) @ take (length ys) (drop (length xs) (drop (nat off) data))"
      by (rule take_add)
    with r show ?l by simp
  qed
  with True show ?thesis by (simp add: occursAt_def d)
next
  case False
  then show ?thesis by (simp add: occursAt_def)
qed

lemma occursAt_Cons:
  "occursAt data off (x # xs) \<longleftrightarrow> byteAt data off = Some x \<and> occursAt data (off + 1) xs"
proof (cases "0 \<le> off")
  case True
  show ?thesis
  proof (cases "nat off < length data")
    case l: True
    have d: "drop (nat off) data = data ! nat off # drop (nat (off + 1)) data"
      using True l by (simp add: Cons_nth_drop_Suc nat_add_distrib)
    show ?thesis using True l by (auto simp: occursAt_def byteAt_def d)
  next
    case False
    then have "drop (nat off) data = []" "\<not> off < int (length data)" using True by simp_all
    then show ?thesis using True by (simp add: occursAt_def byteAt_def)
  qed
next
  case False
  then show ?thesis by (simp add: occursAt_def byteAt_def)
qed

lemma occursAt_Nil [simp]: "occursAt data off [] \<longleftrightarrow> 0 \<le> off"
  by (simp add: occursAt_def)

lemma occursAt_middle: "occursAt (pre @ xs @ post) (int (length pre)) xs"
  by (simp add: occursAt_def)

lemma byteAt_length: "byteAt data i = Some x \<Longrightarrow> i < int (length data)"
  by (simp add: byteAt_def split: if_splits)

subsection \<open>Reading a variable-length quantity\<close>

lemma readVarLenLoop_cont:
  assumes "byteAt data i = Some x" "128 \<le> x" "x < 256" "0 \<le> acc" "acc < 2097152"
  shows "readVarLenLoop data acc i = readVarLenLoop data (acc * 128 + (x - 128)) (i + 1)"
proof -
  have i: "i < int (length data)" using assms(1) by (rule byteAt_length)
  have "js_and x 127 = x mod 128" using assms by (intro js_and_127) linarith+
  moreover have "(x - 128) mod 128 = x - 128"
    using assms(2,3) by (intro mod_pos_pos_trivial) simp_all
  then have "x mod 128 = x - 128" by simp
  ultimately have a: "js_and x 127 = x - 128" by simp
  have "js_or (js_shl acc 7) (x - 128) = acc * 2 ^ 7 + (x - 128)"
    using assms by (intro js_shl_or) simp_all
  then have o: "js_or (js_shl acc 7) (x - 128) = acc * 128 + (x - 128)" by simp
  have "1 \<le> x div 128" using assms by (intro div_lower) simp_all
  moreover have "x div 128 < 2" using assms by (intro div_upper) simp_all
  ultimately have "x div 128 = 1" by simp
  moreover have "js_and x 128 = 0 \<longleftrightarrow> even (x div 128)" using assms by (intro js_and_128) linarith+
  ultimately have c: "js_and x 128 \<noteq> 0" by simp
  show ?thesis
    using i c by (subst readVarLenLoop.simps) (simp add: assms(1) num_def a o Let_def)
qed

lemma readVarLenLoop_last:
  assumes "byteAt data i = Some x" "0 \<le> x" "x < 128" "0 \<le> acc" "acc < 2097152"
  shows "readVarLenLoop data acc i = (acc * 128 + x, i + 1)"
proof -
  have i: "i < int (length data)" using assms(1) by (rule byteAt_length)
  have a: "js_and x 127 = x" using assms by (simp add: js_and_127)
  have "js_or (js_shl acc 7) x = acc * 2 ^ 7 + x"
    using assms by (intro js_shl_or) simp_all
  then have o: "js_or (js_shl acc 7) x = acc * 128 + x" by simp
  have "js_and x 128 = 0 \<longleftrightarrow> even (x div 128)" using assms by (intro js_and_128) linarith+
  then have c: "js_and x 128 = 0" using assms by simp
  show ?thesis
    using i c by (subst readVarLenLoop.simps) (simp add: assms(1) num_def a o Let_def)
qed

lemma vlq_length: "0 < length (vlq v)" "length (vlq v) \<le> 4"
  by (simp_all add: vlq_def)

lemma readVarLen_vlq:
  assumes v: "0 \<le> v" "v < 268435456" and occ: "occursAt data off (vlq v)"
  shows "readVarLen data off = (v, off + int (length (vlq v)))"
proof -
  define a where "a = v mod 128"
  have a: "0 \<le> a" "a < 128" by (simp_all add: a_def)
  consider (1) "v < 128" | (2) "128 \<le> v" "v < 16384" | (3) "16384 \<le> v" "v < 2097152"
    | (4) "2097152 \<le> v"
    by linarith
  then show ?thesis
  proof cases
    case 1
    then have vl: "vlq v = [v]" by (simp add: vlq_def)
    have b: "byteAt data off = Some v" using occ by (simp add: vl occursAt_Cons)
    have "readVarLenLoop data 0 off = (0 * 128 + v, off + 1)"
      using b v(1) 1 by (rule readVarLenLoop_last) simp_all
    then show ?thesis by (simp add: readVarLen_def vl)
  next
    case 2
    define b where "b = v div 128"
    have "1 \<le> b" unfolding b_def using 2 by (intro div_lower) simp_all
    moreover have "b < 128" unfolding b_def using 2 by (intro div_upper) simp_all
    ultimately have b: "1 \<le> b" "b < 128" by simp_all
    have vl: "vlq v = [b + 128, a]" using 2 by (simp add: vlq_def a_def b_def)
    have e: "b * 128 + a = v" by (simp add: a_def b_def)
    have bs: "byteAt data off = Some (b + 128)" "byteAt data (off + 1) = Some a"
      using occ by (simp_all add: vl occursAt_Cons)
    have "readVarLenLoop data 0 off = readVarLenLoop data (0 * 128 + (b + 128 - 128)) (off + 1)"
      using bs(1) b by (intro readVarLenLoop_cont) simp_all
    moreover have "readVarLenLoop data b (off + 1) = (b * 128 + a, off + 1 + 1)"
      using bs(2) a b by (intro readVarLenLoop_last) simp_all
    ultimately have "readVarLenLoop data 0 off = (b * 128 + a, off + 1 + 1)" by simp
    then show ?thesis unfolding e by (simp add: readVarLen_def vl)
  next
    case 3
    define b where "b = v div 128 mod 128"
    define c where "c = v div 16384"
    have b: "0 \<le> b" "b < 128" by (simp_all add: b_def)
    have "1 \<le> c" unfolding c_def using 3 by (intro div_lower) simp_all
    moreover have "c < 128" unfolding c_def using 3 by (intro div_upper) simp_all
    ultimately have c: "1 \<le> c" "c < 128" by simp_all
    have vl: "vlq v = [c + 128, b + 128, a]" using 3 by (simp add: vlq_def a_def b_def c_def)
    have "c * 128 + b = v div 128" unfolding b_def c_def div_div_128(1)[symmetric] by simp
    then have e: "(c * 128 + b) * 128 + a = v" by (simp add: a_def)
    have bs: "byteAt data off = Some (c + 128)" "byteAt data (off + 1) = Some (b + 128)"
      "byteAt data (off + 1 + 1) = Some a"
      using occ by (simp_all add: vl occursAt_Cons)
    have "readVarLenLoop data 0 off = readVarLenLoop data (0 * 128 + (c + 128 - 128)) (off + 1)"
      using bs(1) c by (intro readVarLenLoop_cont) simp_all
    moreover have "readVarLenLoop data c (off + 1) =
        readVarLenLoop data (c * 128 + (b + 128 - 128)) (off + 1 + 1)"
      using bs(2) b c by (intro readVarLenLoop_cont) simp_all
    moreover have "readVarLenLoop data (c * 128 + b) (off + 1 + 1) =
        ((c * 128 + b) * 128 + a, off + 1 + 1 + 1)"
      using bs(3) a b c by (intro readVarLenLoop_last) simp_all
    ultimately have "readVarLenLoop data 0 off = ((c * 128 + b) * 128 + a, off + 1 + 1 + 1)" by simp
    then show ?thesis unfolding e by (simp add: readVarLen_def vl)
  next
    case 4
    define b where "b = v div 128 mod 128"
    define c where "c = v div 16384 mod 128"
    define d where "d = v div 2097152"
    have b: "0 \<le> b" "b < 128" by (simp_all add: b_def)
    have c: "0 \<le> c" "c < 128" by (simp_all add: c_def)
    have "1 \<le> d" unfolding d_def using 4 by (intro div_lower) simp_all
    moreover have "d < 128" unfolding d_def using v by (intro div_upper) simp_all
    ultimately have d: "1 \<le> d" "d < 128" by simp_all
    have vl: "vlq v = [d + 128, c + 128, b + 128, a]"
      using 4 by (simp add: vlq_def a_def b_def c_def d_def)
    have "d * 128 + c = v div 16384" unfolding c_def d_def div_div_128(2)[symmetric] by simp
    then have "(d * 128 + c) * 128 + b = v div 128"
      unfolding b_def div_div_128(1)[symmetric] by simp
    then have e: "((d * 128 + c) * 128 + b) * 128 + a = v" by (simp add: a_def)
    have bs: "byteAt data off = Some (d + 128)" "byteAt data (off + 1) = Some (c + 128)"
      "byteAt data (off + 1 + 1) = Some (b + 128)" "byteAt data (off + 1 + 1 + 1) = Some a"
      using occ by (simp_all add: vl occursAt_Cons)
    have "readVarLenLoop data 0 off = readVarLenLoop data (0 * 128 + (d + 128 - 128)) (off + 1)"
      using bs(1) d by (intro readVarLenLoop_cont) simp_all
    moreover have "readVarLenLoop data d (off + 1) =
        readVarLenLoop data (d * 128 + (c + 128 - 128)) (off + 1 + 1)"
      using bs(2) c d by (intro readVarLenLoop_cont) simp_all
    moreover have "readVarLenLoop data (d * 128 + c) (off + 1 + 1) =
        readVarLenLoop data ((d * 128 + c) * 128 + (b + 128 - 128)) (off + 1 + 1 + 1)"
      using bs(3) b c d by (intro readVarLenLoop_cont) simp_all
    moreover have "readVarLenLoop data ((d * 128 + c) * 128 + b) (off + 1 + 1 + 1) =
        (((d * 128 + c) * 128 + b) * 128 + a, off + 1 + 1 + 1 + 1)"
      using bs(4) a b c d by (intro readVarLenLoop_last) (simp_all add: algebra_simps)
    ultimately have "readVarLenLoop data 0 off =
        (((d * 128 + c) * 128 + b) * 128 + a, off + 1 + 1 + 1 + 1)" by simp
    then show ?thesis unfolding e by (simp add: readVarLen_def vl)
  qed
qed

subsection \<open>One message of the track\<close>

lemma occursAt_subarray:
  assumes "occursAt data off xs"
  shows "subarray data off (off + int (length xs)) = xs"
proof -
  from assms have o: "0 \<le> off" and t: "take (length xs) (drop (nat off) data) = xs"
    by (simp_all add: occursAt_def)
  show ?thesis
  proof (cases "xs = []")
    case True
    then show ?thesis by (simp add: subarray_def)
  next
    case False
    have "length (take (length xs) (drop (nat off) data)) = length xs" by (simp only: t)
    then have l: "nat off + length xs \<le> length data"
      using False by (cases xs) (auto simp: min_def split: if_splits)
    have r1: "relIndex data off = nat off" using o l by (simp add: relIndex_def)
    have r2: "relIndex data (off + int (length xs)) = nat off + length xs"
      using o l by (simp add: relIndex_def nat_add_distrib)
    show ?thesis by (simp add: subarray_def r1 r2 t)
  qed
qed

lemma vlq_0: "vlq 0 = [0]" and vlq_3: "vlq 3 = [3]"
  by (simp_all add: vlq_def)

lemma readStatus_fresh:
  assumes occ: "occursAt data (offset s) (vlq d @ st # rest)"
    and d: "0 \<le> d" "d < 268435456" and st: "128 \<le> st"
  shows "readStatus data s =
           (s\<lparr>offset := offset s + int (length (vlq d)) + 1, currentTick := currentTick s + d,
              runningStatus := Some st\<rparr>, Some st)"
proof -
  from occ have o1: "occursAt data (offset s) (vlq d)"
    and o2: "byteAt data (offset s + int (length (vlq d))) = Some st"
    by (simp_all add: occursAt_append occursAt_Cons)
  have rv: "readVarLen data (offset s) = (d, offset s + int (length (vlq d)))"
    using d o1 by (rule readVarLen_vlq)
  show ?thesis using st by (simp add: readStatus_def rv o2 Let_def)
qed

lemma occursAt_after:
  assumes "occursAt data off (xs @ ys)"
  shows "occursAt data (off + int (length xs)) ys"
  using assms by (simp add: occursAt_append)

lemma step_noteOn:
  assumes occ: "occursAt data (offset s) (vlq d @ [0x90, n, vel])"
    and d: "0 \<le> d" "d < 268435456" and vel: "vel \<noteq> 0"
  shows "trackStep data s =
           s\<lparr>offset := offset s + int (length (vlq d)) + 3, currentTick := currentTick s + d,
             runningStatus := Some 0x90,
             activeNotes := (activeNotes s)((0, Some n) \<mapsto> (currentTick s + d, Some vel))\<rparr>"
proof -
  have rs: "readStatus data s =
      (s\<lparr>offset := offset s + int (length (vlq d)) + 1, currentTick := currentTick s + d,
         runningStatus := Some 0x90\<rparr>, Some 0x90)"
    using occ d by (rule readStatus_fresh) simp
  have b: "byteAt data (offset s + int (length (vlq d)) + 1) = Some n"
    "byteAt data (offset s + int (length (vlq d)) + 1 + 1) = Some vel"
    using occursAt_after[OF occ] by (simp_all add: occursAt_Cons)
  have e: "js_and 0x90 0xf0 = 0x90" "js_and 0x90 0x0f = 0"
    by (simp_all add: js_and_def toInt32_def)
  show ?thesis
    using vel b by (simp add: trackStep_def rs handleEvent_def num_def e Let_def add.commute)
qed

lemma step_noteOff:
  assumes occ: "occursAt data (offset s) (vlq d @ [0x80, n, x])"
    and d: "0 \<le> d" "d < 268435456"
  shows "trackStep data s =
           closeNote (s\<lparr>offset := offset s + int (length (vlq d)) + 3, currentTick := currentTick s + d,
             runningStatus := Some 0x80\<rparr>) (0, Some n)"
proof -
  have rs: "readStatus data s =
      (s\<lparr>offset := offset s + int (length (vlq d)) + 1, currentTick := currentTick s + d,
         runningStatus := Some 0x80\<rparr>, Some 0x80)"
    using occ d by (rule readStatus_fresh) simp
  have b: "byteAt data (offset s + int (length (vlq d)) + 1) = Some n"
    using occursAt_after[OF occ] by (simp_all add: occursAt_Cons)
  have e: "js_and 0x80 0xf0 = 0x80" "js_and 0x80 0x0f = 0"
    by (simp_all add: js_and_def toInt32_def)
  have "trackStep data s =
      closeNote (s\<lparr>offset := offset s + int (length (vlq d)) + 1, currentTick := currentTick s + d,
         runningStatus := Some 0x80, offset := offset s + int (length (vlq d)) + 1 + 2\<rparr>) (0, Some n)"
    using b by (simp add: trackStep_def rs handleEvent_def num_def e Let_def del: TrackState.simps)
  also have "s\<lparr>offset := offset s + int (length (vlq d)) + 1, currentTick := currentTick s + d,
         runningStatus := Some 0x80, offset := offset s + int (length (vlq d)) + 1 + 2\<rparr> =
      s\<lparr>offset := offset s + int (length (vlq d)) + 3, currentTick := currentTick s + d,
             runningStatus := Some 0x80\<rparr>"
    by simp
  finally show ?thesis .
qed

lemma step_program:
  assumes occ: "occursAt data (offset s) (vlq d @ [0xc0, p])"
    and d: "0 \<le> d" "d < 268435456"
  shows "trackStep data s =
           s\<lparr>offset := offset s + int (length (vlq d)) + 2, currentTick := currentTick s + d,
             runningStatus := Some 0xc0, trackProgram := Some p\<rparr>"
proof -
  have rs: "readStatus data s =
      (s\<lparr>offset := offset s + int (length (vlq d)) + 1, currentTick := currentTick s + d,
         runningStatus := Some 0xc0\<rparr>, Some 0xc0)"
    using occ d by (rule readStatus_fresh) simp
  have b: "byteAt data (offset s + int (length (vlq d)) + 1) = Some p"
    using occursAt_after[OF occ] by (simp_all add: occursAt_Cons)
  have e: "js_and 0xc0 0xf0 = 0xc0"
    by (simp_all add: js_and_def toInt32_def)
  show ?thesis
    using b by (simp add: trackStep_def rs handleEvent_def num_def e Let_def add.commute)
qed

lemma step_volume:
  assumes occ: "occursAt data (offset s) (vlq d @ [0xb0, 0x07, x])"
    and d: "0 \<le> d" "d < 268435456"
  shows "trackStep data s =
           s\<lparr>offset := offset s + int (length (vlq d)) + 3, currentTick := currentTick s + d,
             runningStatus := Some 0xb0, trackVolume := Some (clamp (of_int x / 127) 0 1)\<rparr>"
proof -
  have rs: "readStatus data s =
      (s\<lparr>offset := offset s + int (length (vlq d)) + 1, currentTick := currentTick s + d,
         runningStatus := Some 0xb0\<rparr>, Some 0xb0)"
    using occ d by (rule readStatus_fresh) simp
  have b: "byteAt data (offset s + int (length (vlq d)) + 1) = Some 0x07"
    "byteAt data (offset s + int (length (vlq d)) + 1 + 1) = Some x"
    using occursAt_after[OF occ] by (simp_all add: occursAt_Cons)
  have e: "js_and 0xb0 0xf0 = 0xb0"
    by (simp_all add: js_and_def toInt32_def)
  show ?thesis
    using b by (simp add: trackStep_def rs handleEvent_def num_def e Let_def add.commute)
qed

lemma step_tempo:
  assumes occ: "occursAt data (offset s) (vlq d @ [0xff, 0x51, 0x03, t1, t2, t3])"
    and d: "0 \<le> d" "d < 268435456"
  shows "trackStep data s =
           s\<lparr>offset := offset s + int (length (vlq d)) + 6, currentTick := currentTick s + d,
             runningStatus := Some 0xff,
             trackTempo := js_or (js_or (js_shl t1 16) (js_shl t2 8)) t3\<rparr>"
proof -
  define o1 where "o1 = offset s + int (length (vlq d)) + 1"
  have rs: "readStatus data s =
      (s\<lparr>offset := o1, currentTick := currentTick s + d, runningStatus := Some 0xff\<rparr>, Some 0xff)"
    unfolding o1_def using occ d by (rule readStatus_fresh) simp
  have a: "occursAt data (o1 - 1) ([0xff, 0x51] @ [0x03] @ [t1, t2, t3])"
    using occursAt_after[OF occ] by (simp add: o1_def)
  have b: "byteAt data o1 = Some 0x51" using a by (simp add: occursAt_Cons)
  have a2: "occursAt data (o1 + 1) ([0x03] @ [t1, t2, t3])"
    using occursAt_after[OF a] by (simp add: add.commute)
  have l: "occursAt data (o1 + 1) (vlq 3)"
    using a2 unfolding occursAt_append by (simp add: vlq_3)
  have m: "occursAt data (o1 + 1 + 1) [t1, t2, t3]"
    using occursAt_after[OF a2] by (simp add: add.commute)
  have rv: "readVarLen data (o1 + 1) = (3, o1 + 1 + int (length (vlq 3)))"
    using l by (intro readVarLen_vlq) simp_all
  have sa: "subarray data (o1 + 1 + 1) (o1 + 1 + 1 + int (length [t1, t2, t3])) = [t1, t2, t3]"
    using m by (rule occursAt_subarray)
  have sa': "subarray data (o1 + 2) (o1 + 5) = [t1, t2, t3]" using sa by (simp add: add.assoc)
  show ?thesis
    by (simp add: trackStep_def rs handleEvent_def b rv vlq_3 sa' Let_def add.assoc, simp add: o1_def)
qed

lemma step_endOfTrack:
  assumes occ: "occursAt data (offset s) (vlq d @ [0xff, 0x2f, 0x00])"
    and d: "0 \<le> d" "d < 268435456"
  shows "trackStep data s =
           s\<lparr>offset := offset s + int (length (vlq d)) + 3, currentTick := currentTick s + d,
             runningStatus := Some 0xff\<rparr>"
proof -
  define o1 where "o1 = offset s + int (length (vlq d)) + 1"
  have rs: "readStatus data s =
      (s\<lparr>offset := o1, currentTick := currentTick s + d, runningStatus := Some 0xff\<rparr>, Some 0xff)"
    unfolding o1_def using occ d by (rule readStatus_fresh) simp
  have a: "occursAt data (o1 - 1) ([0xff, 0x2f] @ [0x00])"
    using occursAt_after[OF occ] by (simp add: o1_def)
  have b: "byteAt data o1 = Some 0x2f" using a by (simp add: occursAt_Cons)
  have l: "occursAt data (o1 + 1) (vlq 0)"
    using occursAt_after[OF a] by (simp add: vlq_0 add.commute)
  have rv: "readVarLen data (o1 + 1) = (0, o1 + 1 + int (length (vlq 0)))"
    using l by (intro readVarLen_vlq) simp_all
  show ?thesis
    by (simp add: trackStep_def rs handleEvent_def b rv vlq_0 Let_def add.assoc, simp add: o1_def)
qed

subsection \<open>Big-endian fields\<close>

lemma js_shl_mult:
  assumes "0 \<le> x" "x * 2 ^ n < 2147483648"
  shows "js_shl x n = x * 2 ^ n"
proof -
  have a: "0 \<le> x * 2 ^ n" using assms(1) by simp
  show ?thesis
    unfolding js_shl_def push_bit_eq_mult
    by (rule signed_take_bit_int_eq_self) (use a assms(2) in simp_all)
qed

lemma js_or_add:
  assumes "0 \<le> x" "0 \<le> y" "y < 2 ^ n" "x * 2 ^ n + y < 2147483648"
  shows "js_or (x * 2 ^ n) y = x * 2 ^ n + y"
proof -
  have "x * 2 ^ n < 2147483648" using assms(2,4) by linarith
  then have "js_shl x n = x * 2 ^ n" using assms(1) by (intro js_shl_mult)
  then show ?thesis using js_shl_or[OF assms] by simp
qed

lemma js_be3:
  assumes "0 \<le> a" "a < 256" "0 \<le> b" "b < 256" "0 \<le> c" "c < 256"
  shows "js_or (js_or (js_shl a 16) (js_shl b 8)) c = a * 65536 + b * 256 + c"
proof -
  have sa: "js_shl a 16 = a * 2 ^ 16" using assms by (intro js_shl_mult) simp_all
  have sb: "js_shl b 8 = b * 2 ^ 8" using assms by (intro js_shl_mult) simp_all
  have 1: "js_or (a * 2 ^ 16) (b * 2 ^ 8) = a * 2 ^ 16 + b * 2 ^ 8"
    using assms by (intro js_or_add) simp_all
  have 2: "js_or ((a * 256 + b) * 2 ^ 8) c = (a * 256 + b) * 2 ^ 8 + c"
    using assms by (intro js_or_add) simp_all
  have e: "a * 2 ^ 16 + b * 2 ^ 8 = (a * 256 + b) * 2 ^ 8" by simp
  show ?thesis unfolding sa sb 1 e 2 by simp
qed

lemma js_be4:
  assumes "0 \<le> a" "a < 128" "0 \<le> b" "b < 256" "0 \<le> c" "c < 256" "0 \<le> d" "d < 256"
  shows "js_or (js_or (js_or (js_shl a 24) (js_shl b 16)) (js_shl c 8)) d =
           a * 16777216 + b * 65536 + c * 256 + d"
proof -
  have sa: "js_shl a 24 = a * 2 ^ 24" using assms by (intro js_shl_mult) simp_all
  have sb: "js_shl b 16 = b * 2 ^ 16" using assms by (intro js_shl_mult) simp_all
  have sc: "js_shl c 8 = c * 2 ^ 8" using assms by (intro js_shl_mult) simp_all
  have 1: "js_or (a * 2 ^ 24) (b * 2 ^ 16) = a * 2 ^ 24 + b * 2 ^ 16"
    using assms by (intro js_or_add) simp_all
  have 2: "js_or ((a * 256 + b) * 2 ^ 16) (c * 2 ^ 8) = (a * 256 + b) * 2 ^ 16 + c * 2 ^ 8"
    using assms by (intro js_or_add) simp_all
  have 3: "js_or ((a * 65536 + b * 256 + c) * 2 ^ 8) d = (a * 65536 + b * 256 + c) * 2 ^ 8 + d"
    using assms by (intro js_or_add) simp_all
  have e1: "a * 2 ^ 24 + b * 2 ^ 16 = (a * 256 + b) * 2 ^ 16" by simp
  have e2: "(a * 256 + b) * 2 ^ 16 + c * 2 ^ 8 = (a * 65536 + b * 256 + c) * 2 ^ 8" by simp
  show ?thesis unfolding sa sb sc 1 e1 2 e2 3 by simp
qed

lemma div_div_256: "(n::int) div 256 div 256 = n div 65536" "(n::int) div 65536 div 256 = n div 16777216"
  by (simp_all add: div_mult2_eq[symmetric])

lemma bytes_sum:
  fixes n :: int
  shows "n div 16777216 * 16777216 + n div 65536 mod 256 * 65536 + n div 256 mod 256 * 256 + n mod 256 = n"
proof -
  define q1 q2 q3 r0 r1 r2 where "q1 = n div 256" and "q2 = n div 65536" and "q3 = n div 16777216"
    and "r0 = n mod 256" and "r1 = n div 256 mod 256" and "r2 = n div 65536 mod 256"
  have 1: "n = q1 * 256 + r0" by (simp add: q1_def r0_def)
  have "q1 = q1 div 256 * 256 + q1 mod 256" by simp
  then have 2: "q1 = q2 * 256 + r1" by (simp only: q1_def q2_def r1_def div_div_256)
  have "q2 = q2 div 256 * 256 + q2 mod 256" by simp
  then have 3: "q2 = q3 * 256 + r2" by (simp only: q2_def q3_def r2_def div_div_256)
  have "q3 * 16777216 + r2 * 65536 + r1 * 256 + r0 = n" using 1 2 3 by linarith
  then show ?thesis by (simp only: q3_def r0_def r1_def r2_def)
qed

lemma readUInt32BE_u32be:
  assumes occ: "occursAt data off (u32be n)" and n: "0 \<le> n" "n < 2147483648"
  shows "readUInt32BE data off = n"
proof -
  define a b c d where "a = n div 16777216 mod 256" and "b = n div 65536 mod 256"
    and "c = n div 256 mod 256" and "d = n mod 256"
  have bs: "byteAt data off = Some a" "byteAt data (off + 1) = Some b"
    "byteAt data (off + 2) = Some c" "byteAt data (off + 3) = Some d"
    using occ by (simp_all add: u32be_def occursAt_Cons a_def b_def c_def d_def add.commute)
  have q: "0 \<le> n div 16777216" "n div 16777216 < 128"
    using n by (simp_all add: div_upper)
  then have a: "a = n div 16777216" by (simp add: a_def)
  have r: "0 \<le> a" "a < 128" "0 \<le> b" "b < 256" "0 \<le> c" "c < 256" "0 \<le> d" "d < 256"
    using q by (simp_all add: a b_def c_def d_def)
  have s: "a * 16777216 + b * 65536 + c * 256 + d = n"
    unfolding a b_def c_def d_def by (rule bytes_sum)
  have "readUInt32BE data off = take_bit 32 n"
    by (simp add: readUInt32BE_def bs num_def js_be4[OF r] s)
  also have "\<dots> = n" using n by (intro take_bit_int_eq_self) simp_all
  finally show ?thesis .
qed

lemma u16At_u16be:
  assumes occ: "occursAt data off (u16be n)" and n: "0 \<le> n" "n < 65536"
  shows "u16At data off = n"
proof -
  define a b where "a = n div 256 mod 256" and "b = n mod 256"
  have bs: "byteAt data off = Some a" "byteAt data (off + 1) = Some b"
    using occ by (simp_all add: u16be_def occursAt_Cons a_def b_def add.commute)
  have q: "0 \<le> n div 256" "n div 256 < 256" using n by (simp_all add: div_upper)
  then have a: "a = n div 256" by (simp add: a_def)
  have "js_or (js_shl a 8) b = a * 2 ^ 8 + b"
    using q by (intro js_shl_or) (simp_all add: a b_def)
  then show ?thesis by (simp add: u16At_def bs num_def a b_def)
qed

lemma tempo_bytes:
  assumes "0 \<le> T" "T < 16777216"
  shows "js_or (js_or (js_shl (js_and (js_sar T 16) 255) 16) (js_shl (js_and (js_sar T 8) 255) 8))
           (js_and T 255) = T"
proof -
  have s16: "js_sar T 16 = T div 65536" using assms js_sar_div[of T 16] by simp
  have s8: "js_sar T 8 = T div 256" using assms js_sar_div[of T 8] by simp
  have q16: "0 \<le> T div 65536" "T div 65536 < 256" using assms by (simp_all add: div_upper)
  have q8: "0 \<le> T div 256" "T div 256 < 65536" using assms by (simp_all add: div_upper)
  have a: "js_and (js_sar T 16) 255 = T div 65536"
    using q16 by (simp add: s16 js_and_255)
  have b: "js_and (js_sar T 8) 255 = T div 256 mod 256"
    using q8 by (simp add: s8 js_and_255)
  have c: "js_and T 255 = T mod 256" using assms by (simp add: js_and_255)
  have "T div 16777216 = 0" using assms by (simp add: div_pos_pos_trivial)
  then have s: "T div 65536 * 65536 + T div 256 mod 256 * 256 + T mod 256 = T"
    using bytes_sum[of T] q16 by simp
  show ?thesis
    unfolding a b c using q16 by (subst js_be3) (simp_all add: s)
qed

subsection \<open>Bytes\<close>



subsection \<open>The delta encoding\<close>






lemma wire_bytes: "list_all isByte (wire m)"
  by (simp add: wire_def list_all_iff toUint8_def isByte_def split: option.splits)

lemma encSpec_append:
  "encSpec (xs @ ys) lt = encSpec xs lt @ encSpec ys (if xs = [] then lt else tick (last xs))"
  by (induction xs arbitrary: lt) simp_all

lemma deltasOk_append:
  "deltasOk (xs @ ys) lt \<longleftrightarrow> deltasOk xs lt \<and> deltasOk ys (if xs = [] then lt else tick (last xs))"
  by (induction xs arbitrary: lt) simp_all

subsection \<open>Reader: a run of note messages\<close>

lemma closeNote_fields [simp]:
  "offset (closeNote s k) = offset s" "currentTick (closeNote s k) = currentTick s"
  "trackProgram (closeNote s k) = trackProgram s" "trackVolume (closeNote s k) = trackVolume s"
  "trackTempo (closeNote s k) = trackTempo s"
  by (simp_all add: closeNote_def split: option.splits)

lemma applyNoteMsg_fields [simp]:
  "offset (applyNoteMsg s m) = offset s + int (length (vlq (tick m - currentTick s))) + 3"
  "currentTick (applyNoteMsg s m) = tick m"
  "trackProgram (applyNoteMsg s m) = trackProgram s" "trackVolume (applyNoteMsg s m) = trackVolume s"
  "trackTempo (applyNoteMsg s m) = trackTempo s"
  by (simp_all add: applyNoteMsg_def Let_def)

lemma trackStep_noteMsg:
  assumes "isNoteMsg m" "0 \<le> tick m - currentTick s" "tick m - currentTick s < 268435456"
    and "occursAt data (offset s) (vlq (tick m - currentTick s) @ wire m)"
  shows "trackStep data s = applyNoteMsg s m"
  using assms(1) unfolding isNoteMsg_def
proof (elim disjE exE conjE)
  fix n vel assume b: "wire m = [0x90, n, vel]" and v: "vel \<noteq> 0"
  from step_noteOn[OF assms(4)[unfolded b] assms(2,3) v]
  show ?thesis by (simp add: applyNoteMsg_def b Let_def)
next
  fix n x assume b: "wire m = [0x80, n, x]"
  from step_noteOff[OF assms(4)[unfolded b] assms(2,3)]
  show ?thesis by (simp add: applyNoteMsg_def b Let_def)
qed

lemma isNoteMsg_length: "isNoteMsg m \<Longrightarrow> length (wire m) = 3"
  by (auto simp: isNoteMsg_def)

lemma loop_noteMsgs:
  assumes "\<forall>m \<in> set ms. isNoteMsg m" "deltasOk ms (currentTick s)"
    and "occursAt data (offset s) (encSpec ms (currentTick s) @ rest)"
    and "offset s + int (length (encSpec ms (currentTick s))) \<le> trackEnd"
  shows "parseMidiTrackLoop data trackEnd s = parseMidiTrackLoop data trackEnd (foldl applyNoteMsg s ms) \<and>
         offset (foldl applyNoteMsg s ms) = offset s + int (length (encSpec ms (currentTick s))) \<and>
         currentTick (foldl applyNoteMsg s ms) = (if ms = [] then currentTick s else tick (last ms))"
  using assms
proof (induction ms arbitrary: s)
  case Nil
  then show ?case by simp
next
  case (Cons m ms)
  define d where "d = tick m - currentTick s"
  have n: "isNoteMsg m" and d: "0 \<le> d" "d < 268435456" and ok: "deltasOk ms (tick m)"
    using Cons.prems(1,2) by (simp_all add: d_def)
  have len: "length (wire m) = 3" using n by (rule isNoteMsg_length)
  have occ: "occursAt data (offset s) ((vlq d @ wire m) @ (encSpec ms (tick m) @ rest))"
    using Cons.prems(3) by (simp add: d_def)
  then have occ1: "occursAt data (offset s) (vlq d @ wire m)" by (simp only: occursAt_append)
  have st: "trackStep data s = applyNoteMsg s m"
    using n d occ1 unfolding d_def by (intro trackStep_noteMsg)
  have lt: "offset s < trackEnd" using Cons.prems(4) by (simp add: d_def len)
  have step: "parseMidiTrackLoop data trackEnd s = parseMidiTrackLoop data trackEnd (applyNoteMsg s m)"
    using parseMidiTrackLoop_step[OF lt, of data] by (simp add: st)
  have o': "offset (applyNoteMsg s m) = offset s + int (length (vlq d @ wire m))"
    by (simp add: d_def len)
  have occ2: "occursAt data (offset (applyNoteMsg s m)) (encSpec ms (currentTick (applyNoteMsg s m)) @ rest)"
    using occursAt_after[OF occ] unfolding o' by simp
  have b2: "offset (applyNoteMsg s m) + int (length (encSpec ms (currentTick (applyNoteMsg s m)))) \<le> trackEnd"
    using Cons.prems(4) by (simp add: d_def len)
  have ok2: "deltasOk ms (currentTick (applyNoteMsg s m))" using ok by simp
  from Cons.IH[OF _ ok2 occ2 b2] Cons.prems(1)
  have ih: "parseMidiTrackLoop data trackEnd (applyNoteMsg s m) =
        parseMidiTrackLoop data trackEnd (foldl applyNoteMsg (applyNoteMsg s m) ms) \<and>
      offset (foldl applyNoteMsg (applyNoteMsg s m) ms) =
        offset (applyNoteMsg s m) + int (length (encSpec ms (currentTick (applyNoteMsg s m)))) \<and>
      currentTick (foldl applyNoteMsg (applyNoteMsg s m) ms) =
        (if ms = [] then currentTick (applyNoteMsg s m) else tick (last ms))"
    by simp
  show ?case using step ih by (simp add: d_def len)
qed

subsection \<open>Sorting with a comparison function\<close>

lemma insertBy_insort_key:
  assumes "\<And>x y. cmp x y \<le> 0 \<longleftrightarrow> f x \<le> f y"
  shows "insertBy cmp x ys = insort_key f x ys"
  by (induction ys) (simp_all add: assms)

lemma sortBy_sort_key:
  assumes "\<And>x y. cmp x y \<le> 0 \<longleftrightarrow> f x \<le> f y"
  shows "sortBy cmp xs = sort_key f xs"
  by (induction xs) (simp_all add: sortBy_def insertBy_insort_key[OF assms])

lemma compareMidi_le: "compareMidi a b \<le> 0 \<longleftrightarrow> (tick a, order a) \<le> (tick b, order b)"
  by (auto simp: compareMidi_def less_eq_prod_def)

lemma sortBy_compareMidi: "sortBy compareMidi xs = sort_key (\<lambda>m. (tick m, order m)) xs"
  by (rule sortBy_sort_key) (rule compareMidi_le)

lemma sortBy_diff: "sortBy (\<lambda>a b. f a - f b) xs = sort_key f xs" for f :: "'a \<Rightarrow> int"
  by (rule sortBy_sort_key) simp

subsection \<open>Writer: the sorted messages of a score\<close>

lemma insort_key_le_all:
  "\<forall>y \<in> set ys. f x \<le> f y \<Longrightarrow> insort_key f x ys = x # ys"
  by (cases ys) simp_all

lemma insort_key_append_le:
  "\<forall>y \<in> set bs. f x \<le> f y \<Longrightarrow> insort_key f x (as @ bs) = insort_key f x as @ bs"
  by (induction as) (simp_all add: insort_key_le_all)

lemma insort_key_past:
  "\<forall>a \<in> set as. f a < f x \<Longrightarrow> insort_key f x (as @ bs) = as @ insort_key f x bs"
  by (induction as) (auto simp: not_le)

lemma sort_key_append_le:
  "\<forall>x \<in> set xs. \<forall>y \<in> set ys. f x \<le> f y \<Longrightarrow> sort_key f (xs @ ys) = sort_key f xs @ sort_key f ys"
  by (induction xs) (simp_all add: insort_key_append_le)

lemma sort_chord:
  assumes "0 < d"
  shows "sort_key msgKey (concat (map (noteMessages t d v) ns)) = ons t v ns @ offs (t + d) ns"
proof (induction ns)
  case Nil
  then show ?case by (simp add: ons_def offs_def)
next
  case (Cons n ns)
  let ?on = "\<lparr>tick = t, order = 3, bytes = [Some 0x90, n, Some v]\<rparr>"
  let ?off = "\<lparr>tick = t + d, order = 0, bytes = [Some 0x80, n, Some 0]\<rparr>"
  have 1: "insort_key msgKey ?off (ons t v ns @ offs (t + d) ns) =
           ons t v ns @ insort_key msgKey ?off (offs (t + d) ns)"
    using assms by (intro insort_key_past) (auto simp: ons_def less_prod_def)
  have 2: "insort_key msgKey ?off (offs (t + d) ns) = ?off # offs (t + d) ns"
    by (intro insort_key_le_all) (auto simp: offs_def)
  have 3: "insort_key msgKey ?on (ons t v ns @ ?off # offs (t + d) ns) =
           ?on # ons t v ns @ ?off # offs (t + d) ns"
    using assms by (intro insort_key_le_all) (auto simp: ons_def offs_def less_eq_prod_def)
  show ?case
    using Cons.IH by (simp add: noteMessages_def 1 2 3) (simp add: ons_def offs_def)
qed

lemma eventMessages_lower:
  assumes "\<forall>e \<in> set es. 0 < ticksOf e" "m \<in> set (eventMessages h v 480 es t)"
  shows "(t, 3) \<le> msgKey m"
  using assms
proof (induction es arbitrary: t)
  case Nil
  then show ?case by simp
next
  case (Cons e es)
  have d: "0 < ticksOf e" using Cons.prems(1) by simp
  have ih: "(t + ticksOf e, 3) \<le> msgKey m" if "m \<in> set (eventMessages h v 480 es (t + ticksOf e))"
    using Cons.IH[OF _ that] Cons.prems(1) by simp
  have up: "(t, 3) \<le> msgKey m" if "(t + ticksOf e, 3) \<le> msgKey m"
    using that d by (auto simp: less_eq_prod_def)
  from Cons.prems(2) consider
    (here) "type e \<noteq> Rest" "m \<in> set (concat (map (noteMessages t (ticksOf e) v) (pitches h e)))"
    | (later) "m \<in> set (eventMessages h v 480 es (t + ticksOf e))"
    by (auto simp: Let_def ticksOf_def pitches_def split: if_splits)
  then show ?case
  proof cases
    case here
    then show ?thesis using d by (auto simp: noteMessages_def less_eq_prod_def)
  next
    case later
    then show ?thesis using ih up by blast
  qed
qed

lemma sort_eventMessages:
  assumes "\<forall>e \<in> set es. 0 < ticksOf e"
  shows "sort_key msgKey (eventMessages h v 480 es t) = sortedNotes h v es t"
  using assms
proof (induction es arbitrary: t)
  case Nil
  then show ?case by simp
next
  case (Cons e es)
  have d: "0 < ticksOf e" using Cons.prems by simp
  have ih: "sort_key msgKey (eventMessages h v 480 es (t + ticksOf e)) = sortedNotes h v es (t + ticksOf e)"
    using Cons.IH Cons.prems by simp
  show ?case
  proof (cases "type e = Rest")
    case True
    then show ?thesis using ih by (simp add: Let_def ticksOf_def)
  next
    case False
    let ?E = "concat (map (noteMessages t (ticksOf e) v) (pitches h e))"
    let ?R = "eventMessages h v 480 es (t + ticksOf e)"
    have em: "eventMessages h v 480 (e # es) t = ?E @ ?R"
      using False by (simp add: Let_def ticksOf_def pitches_def)
    have le: "\<forall>x \<in> set ?E. \<forall>y \<in> set ?R. msgKey x \<le> msgKey y"
    proof (intro ballI)
      fix x y assume x: "x \<in> set ?E" and y: "y \<in> set ?R"
      have "(t + ticksOf e, 3) \<le> msgKey y"
        using eventMessages_lower[OF _ y] Cons.prems by simp
      moreover have "msgKey x \<le> (t + ticksOf e, 3)"
        using x d by (auto simp: noteMessages_def less_eq_prod_def)
      ultimately show "msgKey x \<le> msgKey y" by (rule order_trans[rotated])
    qed
    show ?thesis
      unfolding em sort_key_append_le[OF le] sort_chord[OF d] ih using False by simp
  qed
qed

lemma sort_midiMessages:
  assumes "\<forall>e \<in> set es. 0 < ticksOf e"
  shows "sortBy compareMidi (midiMessages h es 480) =
           headerMessages h (clamp (jsRound (volume h * 127)) 1 127)
           @ sortedNotes h (clamp (jsRound (volume h * 127)) 1 127) es 0"
proof -
  let ?v = "clamp (jsRound (volume h * 127)) 1 127"
  have le: "\<forall>x \<in> set (headerMessages h ?v). \<forall>y \<in> set (eventMessages h ?v 480 es 0). msgKey x \<le> msgKey y"
  proof (intro ballI)
    fix x y assume x: "x \<in> set (headerMessages h ?v)" and y: "y \<in> set (eventMessages h ?v 480 es 0)"
    have "(0, 3) \<le> msgKey y" using eventMessages_lower[OF assms y] .
    moreover have "msgKey x \<le> (0, 3)"
      using x by (auto simp: headerMessages_def Let_def less_eq_prod_def)
    ultimately show "msgKey x \<le> msgKey y" by (rule order_trans[rotated])
  qed
  have hs: "sort_key msgKey (headerMessages h ?v) = headerMessages h ?v"
    by (simp add: headerMessages_def Let_def less_eq_prod_def)
  show ?thesis
    by (simp add: sortBy_compareMidi midiMessages_def Let_def sort_key_append_le[OF le] hs
        sort_eventMessages[OF assms])
qed

subsection \<open>Writer: the order of the messages\<close>








subsection \<open>Concrete runs\<close>

lemma jsRound_int [simp]: "jsRound (of_int n) = n"
  by (simp add: jsRound_def) linarith

lemma jsRound_half: "jsRound (of_int n / 2) = (n + 1) div 2"
proof -
  have "of_int n / 2 + 1 / 2 = (of_int (n + 1) :: rat) / of_int 2" by (simp add: add_divide_distrib)
  then have "jsRound (of_int n / 2) = \<lfloor>(of_int (n + 1) :: rat) / of_int 2\<rfloor>"
    by (simp only: jsRound_def)
  then show ?thesis by (simp only: floor_divide_of_int_eq)
qed

lemma jsRound_numeral [simp]: "jsRound (numeral n) = numeral n"
  using jsRound_int[of "numeral n"] by simp

lemma jsRound_divide_numeral [simp]:
  "jsRound (numeral a / numeral b) = (2 * numeral a + numeral b) div (2 * numeral b)"
proof -
  have "numeral a / numeral b + 1 / 2 =
      (of_int (2 * numeral a + numeral b) :: rat) / of_int (2 * numeral b)"
    by (simp add: field_simps)
  then have "jsRound (numeral a / numeral b) =
      \<lfloor>(of_int (2 * numeral a + numeral b) :: rat) / of_int (2 * numeral b)\<rfloor>"
    by (simp only: jsRound_def)
  then show ?thesis by (simp only: floor_divide_of_int_eq)
qed







subsection \<open>Header: the pairs of a bracket\<close>


lemma special_chars [simp]:
  "\<not> isAlpha 61" "\<not> isSpace 61" "\<not> isAlpha 32" "isSpace 32" "\<not> isSpace 91" "\<not> isAlpha 93"
  by (simp_all add: isAlpha_def isSpace_def)
















subsection \<open>The total of the beats\<close>


























end
